theory Spec2Isabelle
  imports Main "HOL-Library.Char_ord" "HOL-Library.List_Lexorder" "HOL-Library.AList" "HOL-Library.Multiset"
begin

section \<open>Build-root selection\<close>

text \<open>
  \<^verbatim>\<open>pick_build_root(srcdir)\<close> lists the source directory, keeps the entries that are
  directories and whose name does not start with a dot, and returns the only such entry
  when there is exactly one, the source directory otherwise. A directory listing is
  modelled as the list of its entries in the order \<^verbatim>\<open>iterdir()\<close> yields them; an entry is
  its name and whether \<^verbatim>\<open>is_dir()\<close> holds for it. Paths are strings, and the child
  \<^verbatim>\<open>srcdir/name\<close> is the directory's path, a slash and the name.
\<close>

record dirent =
  ename :: string
  is_dir :: bool

definition child :: "string \<Rightarrow> dirent \<Rightarrow> string" where
  "child srcdir e = srcdir @ ''/'' @ ename e"

definition startswith :: "string \<Rightarrow> string \<Rightarrow> bool" where
  "startswith s p = (take (length p) s = p)"

definition subs :: "dirent list \<Rightarrow> dirent list" where
  "subs listing = filter (\<lambda>p. is_dir p \<and> \<not> startswith (ename p) ''.'') listing"

definition pick_build_root :: "string \<Rightarrow> dirent list \<Rightarrow> string" where
  "pick_build_root srcdir listing =
     (if length (subs listing) = 1 then child srcdir (subs listing ! 0) else srcdir)"

text \<open>The names of the visible (non-hidden) subdirectories of a listing, as a set.\<close>

definition visible_dirs :: "dirent list \<Rightarrow> string set" where
  "visible_dirs listing =
     {ename p | p. p \<in> set listing \<and> is_dir p \<and> (ename p = [] \<or> hd (ename p) \<noteq> CHR ''.'')}"


section \<open>The package registry\<close>

text \<open>
  \<^verbatim>\<open>PackageRecord\<close> is the dataclass of the source. The registry \<^verbatim>\<open>DBI.data["installed"]\<close>
  is a dictionary from package names to records; it is modelled as an association list
  in insertion order, whose keys are distinct as a dictionary's are. Every mutation is
  written to the store at once, so the list is the persisted state too.
\<close>

record PackageRecord =
  name :: string
  version :: string
  files :: "string list"
  runtime_deps :: "string list"
  build_deps :: "string list"
  provides :: "string list"

type_synonym registry = "(string \<times> PackageRecord) list"

definition db_get :: "registry \<Rightarrow> string \<Rightarrow> PackageRecord option" where
  "db_get db n = map_of db n"

definition db_set :: "registry \<Rightarrow> PackageRecord \<Rightarrow> registry" where
  "db_set db rec = AList.update (PackageRecord.name rec) rec db"

definition db_remove :: "registry \<Rightarrow> string \<Rightarrow> registry" where
  "db_remove db n = AList.delete n db"

definition db_all :: "registry \<Rightarrow> registry" where
  "db_all db = db"

subsection \<open>Reverse dependencies\<close>

text \<open>
  \<^verbatim>\<open>reverse_deps(targets)\<close> starts from an empty set for every installed name, adds each
  installed package to the set of every runtime dependency of its record that is itself
  installed, and returns the sets of the targets (the empty set for a target that is not
  installed). The dictionaries of sets are maps to sets here.
\<close>

definition rev_add :: "string \<Rightarrow> string \<Rightarrow> (string \<rightharpoonup> string set) \<Rightarrow> (string \<rightharpoonup> string set)" where
  "rev_add pkg d rv = (case rv d of None \<Rightarrow> rv | Some s \<Rightarrow> rv(d \<mapsto> insert pkg s))"

definition rev_index :: "registry \<Rightarrow> (string \<rightharpoonup> string set)" where
  "rev_index db =
     fold (\<lambda>(pkg, rec) rv. fold (rev_add pkg) (PackageRecord.runtime_deps rec) rv) (db_all db)
       (map_of (map (\<lambda>k. (k, {})) (map fst (db_all db))))"

definition reverse_deps :: "registry \<Rightarrow> string list \<Rightarrow> (string \<rightharpoonup> string set)" where
  "reverse_deps db targets =
     map_of (rev (map (\<lambda>t. (t, case rev_index db t of None \<Rightarrow> {} | Some s \<Rightarrow> s)) targets))"

subsection \<open>Uninstall\<close>

text \<open>
  \<^verbatim>\<open>x.split('/')\<close> cuts a string at every slash; the depth of a path is the number of the
  pieces. \<^verbatim>\<open>sorted(rec.files, key=depth, reverse=True)\<close> is Python's stable sort run on the
  reversed list and reversed again, which is how the interpreter implements
  \<^verbatim>\<open>reverse=True\<close>: paths of the same depth keep their recorded order.
\<close>

fun split_on :: "char \<Rightarrow> string \<Rightarrow> string list" where
  "split_on c [] = [[]]"
| "split_on c (x # xs) =
     (if x = c then [] # split_on c xs
      else (case split_on c xs of [] \<Rightarrow> [[x]] | y # ys \<Rightarrow> (x # y) # ys))"

definition depth :: "string \<Rightarrow> nat" where
  "depth x = length (split_on CHR ''/'' x)"

definition removal_order :: "string list \<Rightarrow> string list" where
  "removal_order fs = rev (sort_key depth (rev fs))"

text \<open>
  The result of \<^verbatim>\<open>uninstall\<close> is what it reports together with the registry and the file
  system it leaves behind. A \<^verbatim>\<open>SystemExit\<close> is the left summand: the state returned with
  it is the state at the moment of the exit. The body of the loop over the recorded
  files (unlink the path when it is a file or a symbolic link, then remove the empty
  ancestor directories, every exception caught and only warned about) acts on the file
  system alone and never leaves the loop; it is the parameter \<open>rm\<close>, applied to the
  paths in the order of the loop.
\<close>

datatype uninstall_error =
  BlockedByDependents string "string list"
| KeyError string

datatype uninstall_report = NotInstalled | Removed

definition uninstall ::
  "(string \<Rightarrow> 'fs \<Rightarrow> 'fs) \<Rightarrow> registry \<Rightarrow> 'fs \<Rightarrow> string \<Rightarrow> bool
     \<Rightarrow> (uninstall_error + uninstall_report) \<times> registry \<times> 'fs" where
  "uninstall rm db fs n force =
     (case db_get db n of
        None \<Rightarrow> (Inr NotInstalled, db, fs)
      | Some rec \<Rightarrow>
          (case reverse_deps db [n] n of
             None \<Rightarrow> (Inl (KeyError n), db, fs)
           | Some rv \<Rightarrow>
               if rv \<noteq> {} \<and> \<not> force
               then (Inl (BlockedByDependents n (sorted_list_of_set rv)), db, fs)
               else (let fs' = fold rm (removal_order (files rec)) fs
                     in (Inr Removed, db_remove db n, fs'))))"

subsection \<open>Orphans\<close>

definition required :: "registry \<Rightarrow> string set" where
  "required db = fold (\<lambda>(k, r) req. req \<union> set (PackageRecord.runtime_deps r)) (db_all db) {}"

definition find_orphans :: "registry \<Rightarrow> string list" where
  "find_orphans db = sorted_list_of_set (set (map fst (db_all db)) - required db)"

text \<open>The installed packages whose recorded runtime dependencies name \<open>p\<close>.\<close>

definition dependents :: "registry \<Rightarrow> string \<Rightarrow> string set" where
  "dependents db p = {q. \<exists>r. db_get db q = Some r \<and> p \<in> set (PackageRecord.runtime_deps r)}"


subsection \<open>Example data\<close>

definition example_record :: "string \<Rightarrow> string list \<Rightarrow> string list \<Rightarrow> PackageRecord" where
  "example_record n fs ds = \<lparr>PackageRecord.name = n, version = ''1.0'', files = fs, runtime_deps = ds,
     build_deps = [], provides = []\<rparr>"

definition record_path :: "string \<Rightarrow> string list \<Rightarrow> string list" where
  "record_path p tr = tr @ [p]"

section \<open>Recipe variables\<close>

subsection \<open>Substitution of \<^verbatim>\<open>${VAR}\<close>\<close>

text \<open>
  \<^verbatim>\<open>_expand_with(env, s)\<close> is \<^verbatim>\<open>re.sub\<close> with the pattern \<^verbatim>\<open>\${([^}]+)}\<close>: the string is
  scanned from the left; where the pattern matches, the match is replaced by
  \<^verbatim>\<open>str(env.get(k, m.group(0)))\<close> for the key \<open>k\<close> of the match and the scan goes on after
  the match (the replacement is not scanned again); elsewhere the character is copied.
  The pattern matches at a position when the text there is a dollar sign, an opening
  brace, one or more characters other than a closing brace, and a closing brace;
  \<open>match_ref\<close> returns the key and the text after the match. Strings are lists of
  bytes: the three characters of the pattern are ASCII, which no byte of a longer UTF-8
  sequence is, so the scan over bytes is the scan over code points. The values of the
  environment are strings (the source passes them through \<^verbatim>\<open>str\<close>).
\<close>

type_synonym env = "string \<rightharpoonup> string"

fun match_ref :: "string \<Rightarrow> (string \<times> string) option" where
  "match_ref (a # b # t) =
     (if a = CHR ''$'' \<and> b = CHR ''{''
      then (let k = takeWhile (\<lambda>c. c \<noteq> CHR ''}'') t; r = dropWhile (\<lambda>c. c \<noteq> CHR ''}'') t
            in if k \<noteq> [] \<and> r \<noteq> [] then Some (k, tl r) else None)
      else None)"
| "match_ref _ = None"

definition group0 :: "string \<Rightarrow> string" where
  "group0 k = ''${'' @ k @ ''}''"

definition repl :: "env \<Rightarrow> string \<Rightarrow> string" where
  "repl env k = (case env k of None \<Rightarrow> group0 k | Some v \<Rightarrow> v)"

lemma match_ref_shorter: "match_ref s = Some (k, rest) \<Longrightarrow> length rest < length s"
proof (induction s rule: match_ref.induct)
  case (1 a b t)
  then have r: "dropWhile (\<lambda>c. c \<noteq> CHR ''}'') t \<noteq> []"
    and rest: "rest = tl (dropWhile (\<lambda>c. c \<noteq> CHR ''}'') t)"
    by (auto simp: Let_def split: if_splits)
  have "length (dropWhile (\<lambda>c. c \<noteq> CHR ''}'') t) \<le> length t"
    by (rule length_dropWhile_le)
  with r rest show ?case by (cases "dropWhile (\<lambda>c. c \<noteq> CHR ''}'') t") auto
qed simp_all

function expand_with :: "env \<Rightarrow> string \<Rightarrow> string" where
  "expand_with env [] = []"
| "expand_with env (c # cs) =
     (case match_ref (c # cs) of
        Some (k, rest) \<Rightarrow> repl env k @ expand_with env rest
      | None \<Rightarrow> c # expand_with env cs)"
  by pat_completeness auto
termination
  by (relation "measure (\<lambda>(env, s). length s)") (auto dest: match_ref_shorter)


subsection \<open>The environment of a recipe, and the library's pass\<close>

text \<open>
  \<^verbatim>\<open>Recipe.load\<close> builds \<^verbatim>\<open>env = {**os.environ, **base_vars, **data['vars']}\<close>: a later
  dictionary overrides an earlier one, which is \<open>++\<close> on maps. Every string \<open>s\<close> of the
  document becomes \<^verbatim>\<open>os.path.expandvars(_expand_with(env, s))\<close>; lists and dictionaries
  are expanded element by element (a dictionary's keys are kept), and any other value
  is returned as it is.

  \<^verbatim>\<open>os.path.expandvars\<close> is the POSIX library function: it scans for
  \<^verbatim>\<open>\$(\w+|\{[^}]*\})\<close> with ASCII word characters, replaces a match whose name is a key
  of the process environment by its value without scanning the value again, and leaves
  every other match as it is.
\<close>

definition is_word :: "char \<Rightarrow> bool" where
  "is_word c = (c \<in> set ''abcdefghijklmnopqrstuvwxyzABCDEFGHIJKLMNOPQRSTUVWXYZ0123456789_'')"

fun match_var :: "string \<Rightarrow> (string \<times> string \<times> string) option" where
  "match_var (a # t) =
     (if a \<noteq> CHR ''$'' then None
      else if takeWhile is_word t \<noteq> []
      then Some (takeWhile is_word t, CHR ''$'' # takeWhile is_word t, dropWhile is_word t)
      else (case t of
              b # u \<Rightarrow>
                (if b = CHR ''{'' \<and> dropWhile (\<lambda>c. c \<noteq> CHR ''}'') u \<noteq> []
                 then Some (takeWhile (\<lambda>c. c \<noteq> CHR ''}'') u,
                            ''${'' @ takeWhile (\<lambda>c. c \<noteq> CHR ''}'') u @ ''}'',
                            tl (dropWhile (\<lambda>c. c \<noteq> CHR ''}'') u))
                 else None)
            | [] \<Rightarrow> None))"
| "match_var [] = None"

lemma match_var_shorter:
  assumes m: "match_var s = Some (n, m, rest)"
  shows "length rest < length s"
proof (cases s)
  case Nil
  with m show ?thesis by simp
next
  case (Cons a t)
  show ?thesis
  proof (cases "takeWhile is_word t \<noteq> []")
    case True
    with m Cons have "rest = dropWhile is_word t" by (auto split: if_splits)
    moreover have "length (dropWhile is_word t) \<le> length t" by (rule length_dropWhile_le)
    ultimately show ?thesis using Cons by simp
  next
    case False
    with m Cons obtain u where t: "t = CHR ''{'' # u"
      and r: "dropWhile (\<lambda>c. c \<noteq> CHR ''}'') u \<noteq> []"
      and rest: "rest = tl (dropWhile (\<lambda>c. c \<noteq> CHR ''}'') u)"
      by (auto split: if_splits list.splits)
    have "length (dropWhile (\<lambda>c. c \<noteq> CHR ''}'') u) \<le> length u" by (rule length_dropWhile_le)
    with r rest t Cons show ?thesis by (cases "dropWhile (\<lambda>c. c \<noteq> CHR ''}'') u") auto
  qed
qed

function expandvars :: "env \<Rightarrow> string \<Rightarrow> string" where
  "expandvars penv [] = []"
| "expandvars penv (c # cs) =
     (case match_var (c # cs) of
        Some (n, m, rest) \<Rightarrow> (case penv n of None \<Rightarrow> m | Some v \<Rightarrow> v) @ expandvars penv rest
      | None \<Rightarrow> c # expandvars penv cs)"
  by pat_completeness auto
termination
  by (relation "measure (\<lambda>(penv, s). length s)") (auto dest: match_var_shorter simp del: match_var.simps)

definition base_vars :: "string \<Rightarrow> string \<Rightarrow> env" where
  "base_vars nm ver = [''name'' \<mapsto> nm, ''version'' \<mapsto> ver]"

definition expand_env :: "env \<Rightarrow> string \<Rightarrow> string \<Rightarrow> env \<Rightarrow> env" where
  "expand_env penv nm ver vars = penv ++ base_vars nm ver ++ vars"

datatype yaml = YStr string | YList "yaml list" | YDict "(string \<times> yaml) list" | YScalar string

fun expand :: "env \<Rightarrow> env \<Rightarrow> yaml \<Rightarrow> yaml" where
  "expand penv env (YStr s) = YStr (expandvars penv (expand_with env s))"
| "expand penv env (YList xs) = YList (map (expand penv env) xs)"
| "expand penv env (YDict kvs) = YDict (map (\<lambda>(k, v). (k, expand penv env v)) kvs)"
| "expand penv env (YScalar x) = YScalar x"

subsection \<open>References and literal text\<close>

text \<open>
  A string is read as a sequence of references \<^verbatim>\<open>${k}\<close> and single characters.
  \<open>tokens\<close> is the reading the pattern gives; \<open>well_formed\<close> says of a sequence that it
  is such a reading: every key is non-empty and free of closing braces, and no literal
  dollar sign is directly followed by a literal opening brace. \<open>subst\<close> is what the
  claim asks of one token, and \<open>lookup_var\<close> is the order of precedence it names: the
  \<^verbatim>\<open>vars\<close> block, then the built-in \<^verbatim>\<open>name\<close> and \<^verbatim>\<open>version\<close>, then the process
  environment.
\<close>

datatype token = Chr char | Ref string

fun render :: "token \<Rightarrow> string" where
  "render (Chr c) = [c]"
| "render (Ref k) = ''${'' @ k @ ''}''"

fun subst :: "env \<Rightarrow> token \<Rightarrow> string" where
  "subst env (Chr c) = [c]"
| "subst env (Ref k) = (case env k of None \<Rightarrow> render (Ref k) | Some v \<Rightarrow> v)"

fun well_formed :: "token list \<Rightarrow> bool" where
  "well_formed [] = True"
| "well_formed (Ref k # ts) = (k \<noteq> [] \<and> CHR ''}'' \<notin> set k \<and> well_formed ts)"
| "well_formed (Chr c # ts) =
     ((case ts of Chr d # _ \<Rightarrow> c \<noteq> CHR ''$'' \<or> d \<noteq> CHR ''{'' | _ \<Rightarrow> True) \<and> well_formed ts)"

definition lookup_var :: "env \<Rightarrow> string \<Rightarrow> string \<Rightarrow> env \<Rightarrow> string \<Rightarrow> string option" where
  "lookup_var penv nm ver vars k =
     (case vars k of
        Some v \<Rightarrow> Some v
      | None \<Rightarrow> if k = ''version'' then Some ver else if k = ''name'' then Some nm else penv k)"

function tokens :: "string \<Rightarrow> token list" where
  "tokens [] = []"
| "tokens (c # cs) =
     (case match_ref (c # cs) of
        Some (k, rest) \<Rightarrow> Ref k # tokens rest
      | None \<Rightarrow> Chr c # tokens cs)"
  by pat_completeness auto
termination
  by (relation "measure length") (auto dest: match_ref_shorter)

definition ref_keys :: "string \<Rightarrow> string list" where
  "ref_keys s = concat (map (\<lambda>t. case t of Ref k \<Rightarrow> [k] | Chr c \<Rightarrow> []) (tokens s))"

definition values_ref_free :: "env \<Rightarrow> bool" where
  "values_ref_free env = (\<forall>k v. env k = Some v \<longrightarrow> (\<forall>r \<in> set (ref_keys v). env r = None))"

text \<open>
  A value has an open reference when it holds a dollar sign and an opening brace with
  no closing brace anywhere after them. The values of an environment are closed when
  each of them is non-empty, does not begin with an opening brace, does not end with a
  dollar sign and has no open reference.
\<close>

fun open_ref :: "string \<Rightarrow> bool" where
  "open_ref (a # b # t) = ((a = CHR ''$'' \<and> b = CHR ''{'' \<and> CHR ''}'' \<notin> set t) \<or> open_ref (b # t))"
| "open_ref [a] = False"
| "open_ref [] = False"

definition closed_values :: "env \<Rightarrow> bool" where
  "closed_values env =
     (\<forall>k v. env k = Some v \<longrightarrow> v \<noteq> [] \<and> hd v \<noteq> CHR ''{'' \<and> last v \<noteq> CHR ''$'' \<and> \<not> open_ref v)"

text \<open>
  A value inside a document is named by the way to it: the index into a list, the key
  into a dictionary.
\<close>

datatype step = Idx nat | Key string

fun value_at :: "step list \<Rightarrow> yaml \<Rightarrow> yaml option" where
  "value_at [] d = Some d"
| "value_at (Idx i # p) d =
     (case d of YList xs \<Rightarrow> if i < length xs then value_at p (xs ! i) else None | _ \<Rightarrow> None)"
| "value_at (Key k # p) d =
     (case d of
        YDict kvs \<Rightarrow> (case map_of kvs k of None \<Rightarrow> None | Some v \<Rightarrow> value_at p v)
      | _ \<Rightarrow> None)"

section \<open>The fetch stage\<close>

text \<open>
  A source descriptor is a dictionary of the recipe; its keys are the fields of
  \<open>source\<close>, absent keys are \<open>None\<close>, and \<^verbatim>\<open>url\<close> is required. What the stage asks of
  the outside is the record \<open>world\<close>: the content \<^verbatim>\<open>curl\<close> writes for a URL (\<open>None\<close> when
  the command exits with a non-zero status), the digest function \<^verbatim>\<open>hashlib.new(algo)\<close>
  gives (\<open>None\<close> when it raises \<^verbatim>\<open>ValueError\<close> for an unknown algorithm), whether
  unpacking an archive and cloning a repository succeed, and \<^verbatim>\<open>pathlib\<close>'s \<^verbatim>\<open>name\<close> and
  \<^verbatim>\<open>stem\<close> of a path. The state is the content of the files written and the list of
  the effects so far. Every function returns the error that stopped it, if any, with the
  state at that moment: \<^verbatim>\<open>SystemExit\<close> and the uncaught exceptions end the operation.
\<close>

record source =
  src_type :: "string option"
  src_url :: string
  src_filename :: "string option"
  src_hash :: "string option"
  src_ref :: "string option"
  src_dir :: "string option"

record world =
  curl :: "string \<Rightarrow> string option"
  hashlib_new :: "string \<Rightarrow> (string \<Rightarrow> string) option"
  unpack :: "string \<Rightarrow> string \<Rightarrow> bool"
  git :: "string \<Rightarrow> string option \<Rightarrow> bool"
  path_name :: "string \<Rightarrow> string"
  path_stem :: "string \<Rightarrow> string"

datatype event =
  Downloaded string string
| Extracted string string
| Cloned string string

record fetch_state =
  contents :: "string \<rightharpoonup> string"
  events :: "event list"

datatype fetch_error =
  CommandFailed string
| ValueError string
| FileNotFound string
| HashMismatch string string string
| UnknownSource string

text \<open>\<^verbatim>\<open>srcdir/fn\<close> for a relative \<open>fn\<close>; \<^verbatim>\<open>x or d\<close> for an optional string \<open>x\<close>.\<close>

definition path_join :: "string \<Rightarrow> string \<Rightarrow> string" where
  "path_join d f = d @ ''/'' @ f"

definition or_else :: "string option \<Rightarrow> string \<Rightarrow> string" where
  "or_else x d = (case x of None \<Rightarrow> d | Some v \<Rightarrow> if v = [] then d else v)"

definition download_to :: "world \<Rightarrow> string \<Rightarrow> string \<Rightarrow> fetch_state \<Rightarrow> fetch_error option \<times> fetch_state" where
  "download_to w u dest st =
     (case curl w u of
        None \<Rightarrow> (Some (CommandFailed ''curl''), st)
      | Some c \<Rightarrow> (None, st\<lparr>contents := (contents st)(dest \<mapsto> c),
                              events := events st @ [Downloaded u dest]\<rparr>))"

text \<open>
  \<^verbatim>\<open>algo, expected = spec.split(':', 1)\<close> cuts at the first colon and raises \<^verbatim>\<open>ValueError\<close>
  when there is none. \<^verbatim>\<open>verify_hash\<close> then reads the file and compares the digest.
\<close>

definition split_once :: "string \<Rightarrow> (string \<times> string) option" where
  "split_once spec =
     (if CHR '':'' \<in> set spec
      then Some (takeWhile (\<lambda>c. c \<noteq> CHR '':'') spec, tl (dropWhile (\<lambda>c. c \<noteq> CHR '':'') spec))
      else None)"

definition verify_hash :: "world \<Rightarrow> string \<Rightarrow> string \<Rightarrow> string \<Rightarrow> fetch_state \<Rightarrow> fetch_error option" where
  "verify_hash w path nm spec st =
     (case split_once spec of
        None \<Rightarrow> Some (ValueError spec)
      | Some (algo, expected) \<Rightarrow>
          (case hashlib_new w algo of
             None \<Rightarrow> Some (ValueError algo)
           | Some h \<Rightarrow>
               (case contents st path of
                  None \<Rightarrow> Some (FileNotFound path)
                | Some c \<Rightarrow>
                    if h c \<noteq> expected then Some (HashMismatch nm expected (h c)) else None)))"

definition endswith :: "string \<Rightarrow> string \<Rightarrow> bool" where
  "endswith s x = (length x \<le> length s \<and> drop (length s - length x) s = x)"

definition archive_suffixes :: "string list" where
  "archive_suffixes = [''.tar.gz'', ''.tar.xz'', ''.tar.bz2'', ''.zip'', ''.tar'', ''.tgz'', ''.tbz'',
     ''.txz'', ''.7z'', ''.gz'', ''.bz2'', ''.xz'', ''.zst'']"

definition extract_archive :: "world \<Rightarrow> string \<Rightarrow> string \<Rightarrow> fetch_state \<Rightarrow> fetch_error option \<times> fetch_state" where
  "extract_archive w archive dest st =
     (if unpack w archive dest
      then (None, st\<lparr>events := events st @ [Extracted archive dest]\<rparr>)
      else (Some (CommandFailed ''extract''), st))"

definition git_clone :: "world \<Rightarrow> string \<Rightarrow> string \<Rightarrow> string option \<Rightarrow> fetch_state \<Rightarrow> fetch_error option \<times> fetch_state" where
  "git_clone w u dest r st =
     (if git w u r
      then (None, st\<lparr>events := events st @ [Cloned u dest]\<rparr>)
      else (Some (CommandFailed ''git''), st))"

definition fetch_source :: "world \<Rightarrow> string \<Rightarrow> source \<Rightarrow> fetch_state \<Rightarrow> fetch_error option \<times> fetch_state" where
  "fetch_source w srcdir src st =
     (let t = (case src_type src of None \<Rightarrow> ''curl'' | Some t \<Rightarrow> t) in
      if t = ''curl'' then
        (let u = src_url src;
             fn = or_else (src_filename src) (path_name w u);
             dest = path_join srcdir fn
         in case download_to w u dest st of
              (Some e, st1) \<Rightarrow> (Some e, st1)
            | (None, st1) \<Rightarrow>
                (case (case src_hash src of
                         None \<Rightarrow> None
                       | Some h \<Rightarrow> if h = [] then None else verify_hash w dest fn h st1) of
                   Some e \<Rightarrow> (Some e, st1)
                 | None \<Rightarrow>
                     if list_ex (endswith fn) archive_suffixes
                     then extract_archive w dest srcdir st1
                     else (None, st1)))
      else if t = ''git'' then
        (let repo = src_url src;
             gdest = path_join srcdir (or_else (src_dir src) (path_stem w repo))
         in git_clone w repo gdest (src_ref src) st)
      else (Some (UnknownSource t), st))"

fun fetch_sources :: "world \<Rightarrow> string \<Rightarrow> source list \<Rightarrow> fetch_state \<Rightarrow> fetch_error option \<times> fetch_state" where
  "fetch_sources w srcdir [] st = (None, st)"
| "fetch_sources w srcdir (src # rest) st =
     (case fetch_source w srcdir src st of
        (Some e, st1) \<Rightarrow> (Some e, st1)
      | (None, st1) \<Rightarrow> fetch_sources w srcdir rest st1)"

text \<open>A descriptor is of the \<^verbatim>\<open>curl\<close> type when its type is absent or \<^verbatim>\<open>curl\<close>.\<close>

definition is_curl :: "source \<Rightarrow> bool" where
  "is_curl src = (src_type src = None \<or> src_type src = Some ''curl'')"

subsection \<open>Example data\<close>

definition example_world :: world where
  "example_world = \<lparr>curl = (\<lambda>u. if u = ''http://h/z.tar.xz'' then Some ''tarball'' else None),
     hashlib_new = (\<lambda>a. if a = ''sha256'' then Some (\<lambda>c. ''abc'') else None),
     unpack = (\<lambda>a d. True), git = (\<lambda>u r. True),
     path_name = (\<lambda>u. ''z.tar.xz''), path_stem = (\<lambda>u. ''z'')\<rparr>"

definition example_source :: "string \<Rightarrow> source" where
  "example_source digest = \<lparr>src_type = Some ''curl'', src_url = ''http://h/z.tar.xz'',
     src_filename = None, src_hash = Some (''sha256'' @ '':'' @ digest), src_ref = None, src_dir = None\<rparr>"

definition empty_state :: fetch_state where
  "empty_state = \<lparr>contents = Map.empty, events = []\<rparr>"

section \<open>Recipes and the dependency resolver\<close>

text \<open>
  \<^verbatim>\<open>Recipe\<close> is the dataclass of the source; a patch descriptor is a dictionary with
  \<^verbatim>\<open>url\<close>, one with \<^verbatim>\<open>dir\<close>, or a bare path. The recipe map is a dictionary from names
  to recipes, modelled as an association list in insertion order.

  Python sets are modelled as lists without repetition. The order in which Python
  iterates a set is not specified, and the model treats the two places where
  \<^verbatim>\<open>topo_sort\<close> iterates a set differently. The order of the traversal (over \<^verbatim>\<open>reqs\<close> and
  over the dependencies of a recipe) only decides in which order names join the set
  \<^verbatim>\<open>needed\<close>, not which names do (\<open>needed_reachable\<close> below), so the list order is
  taken. The order in which \<^verbatim>\<open>needed\<close> itself is iterated decides the output, so it is
  a parameter: \<open>iter\<close> maps the set, as the list of its elements, to the list in the order
  of iteration. \<^verbatim>\<open>subg\<close>, \<^verbatim>\<open>indeg\<close> and the initial queue are all built by iterating
  \<^verbatim>\<open>needed\<close> with no change to it in between, so one order serves.
\<close>

datatype patch = PatchUrl string | PatchDir string | PatchFile string

record Recipe =
  name :: string
  version :: string
  vars :: "(string \<times> string) list"
  source :: "source list"
  patches :: "patch list"
  build :: "string list"
  install :: "string list"
  runtime_deps :: "string list"
  build_deps :: "string list"
  provides :: "string list"
  path :: string

type_synonym recipes = "(string \<times> Recipe) list"

text \<open>
  \<^verbatim>\<open>graph[r.name] = set(r.runtime_deps or []) | set(r.build_deps or [])\<close> for every
  recipe of the map, in the order of the map: a later recipe of the same name
  overrides an earlier one. \<open>graph_get g n\<close> is \<^verbatim>\<open>graph.get(n, [])\<close>.
\<close>

definition deps :: "Recipe \<Rightarrow> string list" where
  "deps r = remdups (Recipe.runtime_deps r @ Recipe.build_deps r)"

definition graph :: "recipes \<Rightarrow> (string \<rightharpoonup> string list)" where
  "graph rs = fold (\<lambda>(k, r) g. g(Recipe.name r \<mapsto> deps r)) rs Map.empty"

definition graph_get :: "(string \<rightharpoonup> string list) \<Rightarrow> string \<Rightarrow> string list" where
  "graph_get g n = (case g n of None \<Rightarrow> [] | Some ds \<Rightarrow> ds)"

text \<open>
  The closure \<^verbatim>\<open>dfs\<close> is recursive in the source: \<^verbatim>\<open>dfs(n)\<close> returns at once when \<open>n\<close>
  is in \<^verbatim>\<open>needed\<close>, and otherwise adds \<open>n\<close> and calls itself on every dependency of \<open>n\<close>
  that is a key of the recipe map. Here the calls still to be made are the list
  \<open>todo\<close>: the call at its head is made, the calls it makes in turn are put in front,
  and the rest follow, which is the order of the recursion. It ends because every call
  that does not return at once adds a name to \<^verbatim>\<open>needed\<close>.
\<close>

function dfs :: "(string \<rightharpoonup> string list) \<Rightarrow> string list \<Rightarrow> string list \<Rightarrow> string list \<Rightarrow> string list" where
  "dfs g keys [] needed = needed"
| "dfs g keys (n # todo) needed =
     (if n \<in> set needed then dfs g keys todo needed
      else dfs g keys (filter (\<lambda>d. d \<in> set keys) (graph_get g n) @ todo) (needed @ [n]))"
  by pat_completeness auto
termination
proof (relation "inv_image (less_than <*lex*> less_than)
    (\<lambda>(g, keys, todo, needed). (card ((set keys \<union> set todo) - set needed), length todo))")
  show "wf (inv_image (less_than <*lex*> less_than)
    (\<lambda>(g, keys, todo, needed). (card ((set keys \<union> set todo) - set needed), length todo)))"
    by (intro wf_inv_image wf_lex_prod wf_less_than)
next
  fix g :: "string \<rightharpoonup> string list" and keys todo needed :: "string list" and n :: string
  have "(set keys \<union> set todo) - set needed \<subseteq> (set keys \<union> set (n # todo)) - set needed"
    by auto
  then have "card ((set keys \<union> set todo) - set needed) \<le> card ((set keys \<union> set (n # todo)) - set needed)"
    by (intro card_mono) simp_all
  then show "((g, keys, todo, needed), (g, keys, n # todo, needed))
      \<in> inv_image (less_than <*lex*> less_than)
          (\<lambda>(g, keys, todo, needed). (card ((set keys \<union> set todo) - set needed), length todo))"
    by auto
next
  fix g :: "string \<rightharpoonup> string list" and keys todo needed :: "string list" and n :: string
  assume n: "n \<notin> set needed"
  let ?ds = "filter (\<lambda>d. d \<in> set keys) (graph_get g n)"
  have "(set keys \<union> set (?ds @ todo)) - set (needed @ [n])
      \<subset> (set keys \<union> set (n # todo)) - set needed"
    using n by auto
  then have "card ((set keys \<union> set (?ds @ todo)) - set (needed @ [n]))
      < card ((set keys \<union> set (n # todo)) - set needed)"
    by (intro psubset_card_mono) simp_all
  then show "((g, keys, ?ds @ todo, needed @ [n]), (g, keys, n # todo, needed))
      \<in> inv_image (less_than <*lex*> less_than)
          (\<lambda>(g, keys, todo, needed). (card ((set keys \<union> set todo) - set needed), length todo))"
    by simp
qed

text \<open>
  The body of the \<^verbatim>\<open>while\<close> loop of Kahn's algorithm: after \<open>n\<close> is taken from the
  queue, every \<open>m\<close> of \<^verbatim>\<open>subg\<close> (in its order \<open>ns\<close>) that lists \<open>n\<close> has \<^verbatim>\<open>indeg[m]\<close>
  lowered by one and joins the end of the queue when it reaches zero. \<^verbatim>\<open>indeg\<close> is a
  dictionary whose keys are the names of \<open>ns\<close>, read and written at those names only;
  it is a function on names here, and its values are Python's integers.
\<close>

fun relax :: "(string \<Rightarrow> string list) \<Rightarrow> string \<Rightarrow> string list
    \<Rightarrow> (string \<Rightarrow> int) \<times> string list \<Rightarrow> (string \<Rightarrow> int) \<times> string list" where
  "relax subg n [] (indeg, q) = (indeg, q)"
| "relax subg n (m # ms) (indeg, q) =
     (if n \<in> set (subg m)
      then relax subg n ms
             (indeg(m := indeg m - 1), if indeg m - 1 = 0 then q @ [m] else q)
      else relax subg n ms (indeg, q))"

lemma relax_measure:
  assumes "relax subg n ms (indeg, q) = (indeg', q')" and "finite S" and "set ms \<subseteq> S"
  shows "length q' + card {m \<in> S. 0 < indeg' m} \<le> length q + card {m \<in> S. 0 < indeg m}"
  using assms
proof (induction ms arbitrary: indeg q)
  case Nil
  then show ?case by simp
next
  case (Cons m ms)
  show ?case
  proof (cases "n \<in> set (subg m)")
    case False
    with Cons show ?thesis by simp
  next
    case True
    let ?i = "indeg(m := indeg m - 1)"
    let ?q = "if indeg m - 1 = 0 then q @ [m] else q"
    from Cons.prems True have r: "relax subg n ms (?i, ?q) = (indeg', q')" by simp
    from Cons.prems have ms: "set ms \<subseteq> S" and m: "m \<in> S" by simp_all
    have IH: "length q' + card {x \<in> S. 0 < indeg' x} \<le> length ?q + card {x \<in> S. 0 < ?i x}"
      by (rule Cons.IH [OF r Cons.prems(2) ms])
    have fin: "finite {x \<in> S. 0 < indeg x}" using Cons.prems(2) by simp
    have "length ?q + card {x \<in> S. 0 < ?i x} \<le> length q + card {x \<in> S. 0 < indeg x}"
    proof (cases "indeg m - 1 = 0")
      case True
      then have "{x \<in> S. 0 < ?i x} = {x \<in> S. 0 < indeg x} - {m}" by auto
      moreover have "m \<in> {x \<in> S. 0 < indeg x}" using True m by simp
      ultimately have "card {x \<in> S. 0 < ?i x} = card {x \<in> S. 0 < indeg x} - 1"
        and "0 < card {x \<in> S. 0 < indeg x}"
        using fin by (auto simp: card_gt_0_iff)
      with True show ?thesis by simp
    next
      case False
      have "{x \<in> S. 0 < ?i x} \<subseteq> {x \<in> S. 0 < indeg x}" by auto
      then have "card {x \<in> S. 0 < ?i x} \<le> card {x \<in> S. 0 < indeg x}"
        using fin by (rule card_mono [rotated])
      with False show ?thesis by simp
    qed
    with IH show ?thesis by linarith
  qed
qed

text \<open>
  The loop itself: \<^verbatim>\<open>n = q.pop(0); out.append(n)\<close>, then the body above, until the queue
  is empty. It ends because a name joins the queue only when its counter falls from one
  to zero, which happens once.
\<close>

function kahn :: "(string \<Rightarrow> string list) \<Rightarrow> string list \<Rightarrow> string list \<Rightarrow> (string \<Rightarrow> int)
    \<Rightarrow> string list \<Rightarrow> string list" where
  "kahn subg ns [] indeg out = out"
| "kahn subg ns (n # q) indeg out =
     (case relax subg n ns (indeg, q) of
        (indeg', q') \<Rightarrow> kahn subg ns q' indeg' (out @ [n]))"
  by pat_completeness auto
termination
proof (relation "measure (\<lambda>(subg, ns, q, indeg, out). length q + card {m \<in> set ns. 0 < indeg m})")
  show "wf (measure (\<lambda>(subg, ns, q, indeg, out). length q + card {m \<in> set ns. 0 < indeg m}))"
    by simp
next
  fix subg :: "string \<Rightarrow> string list" and ns n q and indeg :: "string \<Rightarrow> int"
    and out :: "string list" and x indeg' q'
  assume "(indeg', q') = relax subg n ns (indeg, q)"
  then have "relax subg n ns (indeg, q) = (indeg', q')" by simp
  then have "length q' + card {m \<in> set ns. 0 < indeg' m} \<le> length q + card {m \<in> set ns. 0 < indeg m}"
    by (rule relax_measure) simp_all
  then show "((subg, ns, q', indeg', out @ [n]), (subg, ns, n # q, indeg, out))
      \<in> measure (\<lambda>(subg, ns, q, indeg, out). length q + card {m \<in> set ns. 0 < indeg m})"
    by simp
qed

definition needed :: "string list \<Rightarrow> recipes \<Rightarrow> string list" where
  "needed reqs rs = dfs (graph rs) (map fst rs) (filter (\<lambda>n. n \<in> set (map fst rs)) reqs) []"

definition subg :: "recipes \<Rightarrow> string list \<Rightarrow> string \<Rightarrow> string list" where
  "subg rs nd n = filter (\<lambda>d. d \<in> set nd) (graph_get (graph rs) n)"

definition topo_sort :: "(string list \<Rightarrow> string list) \<Rightarrow> string list \<Rightarrow> recipes \<Rightarrow> string list" where
  "topo_sort iter reqs rs =
     (let nd = needed reqs rs;
          ns = iter nd;
          indeg = (\<lambda>n. int (length (subg rs nd n)));
          q = filter (\<lambda>n. indeg n = 0) ns
      in kahn (subg rs nd) ns q indeg [])"

subsection \<open>The notions of the claims\<close>

text \<open>
  A recipe map is well formed when its keys are distinct and every recipe is stored
  under its own name, as \<^verbatim>\<open>load_all_recipes\<close> builds it. An order of iteration is
  admissible when it lists the elements of the set, each once. \<open>position out x\<close> is
  the index of the first \<open>x\<close> in \<open>out\<close>. \<open>depends_on rs b a\<close>: the recipe of \<open>b\<close> lists
  \<open>a\<close> among its runtime or build dependencies and \<open>a\<close> has a recipe; a chain is a list
  in which every name depends on the next.
\<close>

definition recipes_wf :: "recipes \<Rightarrow> bool" where
  "recipes_wf rs \<longleftrightarrow> distinct (map fst rs) \<and> (\<forall>(k, r) \<in> set rs. Recipe.name r = k)"

definition iter_ok :: "(string list \<Rightarrow> string list) \<Rightarrow> bool" where
  "iter_ok iter \<longleftrightarrow> (\<forall>xs. distinct xs \<longrightarrow> distinct (iter xs) \<and> set (iter xs) = set xs)"

definition position :: "string list \<Rightarrow> string \<Rightarrow> nat" where
  "position out x = length (takeWhile (\<lambda>y. y \<noteq> x) out)"

definition depends_on :: "recipes \<Rightarrow> string \<Rightarrow> string \<Rightarrow> bool" where
  "depends_on rs b a \<longleftrightarrow>
     (case map_of rs b of
        None \<Rightarrow> False
      | Some r \<Rightarrow> a \<in> set (Recipe.runtime_deps r) \<union> set (Recipe.build_deps r))
     \<and> map_of rs a \<noteq> None"

fun dep_chain :: "recipes \<Rightarrow> string list \<Rightarrow> bool" where
  "dep_chain rs (x # y # zs) = (depends_on rs x y \<and> dep_chain rs (y # zs))"
| "dep_chain rs [x] = True"
| "dep_chain rs [] = True"

text \<open>
  The invariant of the loop: no name is twice in the output and the queue; the counter
  of a name is the number of its dependencies not yet in the output; a name is in the
  output or the queue exactly when all its dependencies are in the output; and every
  name of the output comes after its dependencies.
\<close>

definition ordered :: "(string \<Rightarrow> string list) \<Rightarrow> string list \<Rightarrow> bool" where
  "ordered sg out \<longleftrightarrow> (\<forall>i < length out. set (sg (out ! i)) \<subseteq> set (take i out))"

definition kahn_inv ::
  "(string \<Rightarrow> string list) \<Rightarrow> string list \<Rightarrow> string list \<Rightarrow> (string \<Rightarrow> int) \<Rightarrow> string list \<Rightarrow> bool" where
  "kahn_inv sg ns q indeg out \<longleftrightarrow>
     distinct (out @ q) \<and> set (out @ q) \<subseteq> set ns
     \<and> (\<forall>m \<in> set ns. indeg m = int (card (set (sg m) - set out)))
     \<and> (\<forall>m \<in> set ns. (m \<in> set (out @ q)) = (set (sg m) \<subseteq> set out))
     \<and> ordered sg out"

text \<open>The edges the traversal follows.\<close>

definition edges :: "recipes \<Rightarrow> (string \<times> string) set" where
  "edges rs = {(n, d). d \<in> set (graph_get (graph rs) n) \<and> d \<in> fst ` set rs}"

subsection \<open>Example recipes\<close>

definition example_recipe :: "string \<Rightarrow> string list \<Rightarrow> string list \<Rightarrow> Recipe" where
  "example_recipe n rd bd = \<lparr>Recipe.name = n, version = ''1'', vars = [], source = [], patches = [], build = [],
     install = [], runtime_deps = rd, build_deps = bd, provides = [], path = n @ ''.yml''\<rparr>"

definition example_recipes :: recipes where
  "example_recipes = [(''a'', example_recipe ''a'' [] []), (''b'', example_recipe ''b'' [''a''] []),
     (''c'', example_recipe ''c'' [''a'', ''b''] [])]"

definition cyclic_recipes :: recipes where
  "cyclic_recipes = [(''a'', example_recipe ''a'' [] []), (''x'', example_recipe ''x'' [''y''] [''a'']),
     (''y'', example_recipe ''y'' [''x''] [])]"

section \<open>Theorems\<close>

lemma startswith_dot: "startswith s ''.'' \<longleftrightarrow> (s \<noteq> [] \<and> hd s = CHR ''.'')"
  by (cases s) (auto simp: startswith_def)

lemma visible_dirs_subs: "visible_dirs listing = ename ` set (subs listing)"
  by (auto simp: visible_dirs_def subs_def startswith_dot)

lemma distinct_subs:
  assumes "distinct (map ename listing)"
  shows "distinct (map ename (subs listing))"
  using assms unfolding subs_def by (rule distinct_map_filter)

lemma card_visible_dirs:
  assumes "distinct (map ename listing)"
  shows "card (visible_dirs listing) = length (subs listing)"
proof -
  have "card (set (map ename (subs listing))) = length (map ename (subs listing))"
    using distinct_subs [OF assms] by (rule distinct_card)
  then show ?thesis by (simp add: visible_dirs_subs)
qed

text \<open>
  C10. Build-root selection counts only the non-hidden top-level directories. For a
  listing of a directory (entry names are distinct): when exactly one entry is a
  directory whose name does not start with a dot, that entry is the build root; in every
  other case (none, or two or more, whatever the hidden directories and the plain files
  are) the source directory itself is the build root.
\<close>

theorem pick_build_root_visible:
  assumes "distinct (map ename listing)"
  shows "(\<exists>n. visible_dirs listing = {n} \<and> pick_build_root srcdir listing = srcdir @ ''/'' @ n)
       \<or> (card (visible_dirs listing) \<noteq> 1 \<and> pick_build_root srcdir listing = srcdir)"
proof (cases "length (subs listing) = 1")
  case True
  then obtain p where p: "subs listing = [p]"
    by (cases "subs listing") auto
  have "visible_dirs listing = {ename p}"
    by (simp add: visible_dirs_subs p)
  moreover have "pick_build_root srcdir listing = srcdir @ ''/'' @ ename p"
    by (simp add: pick_build_root_def p child_def)
  ultimately show ?thesis by blast
next
  case False
  then have "card (visible_dirs listing) \<noteq> 1"
    by (simp add: card_visible_dirs [OF assms])
  moreover have "pick_build_root srcdir listing = srcdir"
    using False by (simp add: pick_build_root_def)
  ultimately show ?thesis by blast
qed


theorem pick_build_root_visible_witness:
  "visible_dirs [\<lparr>ename = ''.git'', is_dir = True\<rparr>, \<lparr>ename = ''zlib-1.3.1'', is_dir = True\<rparr>,
        \<lparr>ename = ''zlib.tar.xz'', is_dir = False\<rparr>] = {''zlib-1.3.1''}
   \<and> pick_build_root ''/w/src'' [\<lparr>ename = ''.git'', is_dir = True\<rparr>, \<lparr>ename = ''zlib-1.3.1'', is_dir = True\<rparr>,
        \<lparr>ename = ''zlib.tar.xz'', is_dir = False\<rparr>] = ''/w/src/zlib-1.3.1''"
proof -
  let ?l = "[\<lparr>ename = ''.git'', is_dir = True\<rparr>, \<lparr>ename = ''zlib-1.3.1'', is_dir = True\<rparr>,
        \<lparr>ename = ''zlib.tar.xz'', is_dir = False\<rparr>]"
  have d: "distinct (map ename ?l)" by simp
  have v: "visible_dirs ?l = {''zlib-1.3.1''}"
    by (simp add: visible_dirs_subs subs_def startswith_def)
  then have c: "card (visible_dirs ?l) = 1" by simp
  from pick_build_root_visible [OF d, of "''/w/src''"] c
  obtain n where "visible_dirs ?l = {n}" and p: "pick_build_root ''/w/src'' ?l = ''/w/src'' @ ''/'' @ n"
    by (elim disjE exE conjE) (simp_all only: not_True_eq_False simp_thms)
  with v have "n = ''zlib-1.3.1''" by (simp only: singleton_inject)
  with p have "pick_build_root ''/w/src'' ?l = ''/w/src/zlib-1.3.1''" by simp
  with v show ?thesis by (rule conjI)
qed

lemma required_eq: "required db = (\<Union>(k, r) \<in> set db. set (PackageRecord.runtime_deps r))"
proof -
  have "fold (\<lambda>(k, r) req. req \<union> set (PackageRecord.runtime_deps r)) xs acc
        = acc \<union> (\<Union>(k, r) \<in> set xs. set (PackageRecord.runtime_deps r))" for xs acc
    by (induction xs arbitrary: acc) auto
  from this [of db "{}"] show ?thesis by (simp add: required_def db_all_def)
qed

lemma db_get_iff:
  assumes "distinct (map fst db)"
  shows "db_get db k = Some r \<longleftrightarrow> (k, r) \<in> set db"
  using assms by (simp add: db_get_def)

lemma finite_orphans: "finite (set (map fst db) - required db)"
  by simp


text \<open>
  C7. For every registry, \<^verbatim>\<open>find_orphans()\<close> returns exactly the installed package names
  that occur in the \<^verbatim>\<open>runtime_deps\<close> of no installed package's record: each such name is
  in the result, and no name that some installed record lists is. The result is sorted
  and free of repetitions.
\<close>

theorem find_orphans_exact:
  assumes "distinct (map fst db)"
  shows "set (find_orphans db) =
           {n. db_get db n \<noteq> None \<and> (\<forall>q r. db_get db q = Some r \<longrightarrow> n \<notin> set (PackageRecord.runtime_deps r))}
         \<and> sorted (find_orphans db) \<and> distinct (find_orphans db)"
proof -
  have "set (find_orphans db) = set (map fst db) - required db"
    unfolding find_orphans_def db_all_def by simp
  also have "\<dots> = {n. db_get db n \<noteq> None \<and> (\<forall>q r. db_get db q = Some r \<longrightarrow> n \<notin> set (PackageRecord.runtime_deps r))}"
  proof -
    have keys: "n \<in> set (map fst db) \<longleftrightarrow> db_get db n \<noteq> None" for n
      by (simp add: db_get_def map_of_eq_None_iff)
    have req: "n \<in> required db \<longleftrightarrow> (\<exists>q r. db_get db q = Some r \<and> n \<in> set (PackageRecord.runtime_deps r))" for n
      by (auto simp: required_eq db_get_iff [OF assms])
    show ?thesis using keys req by blast
  qed
  finally have "set (find_orphans db) =
           {n. db_get db n \<noteq> None \<and> (\<forall>q r. db_get db q = Some r \<longrightarrow> n \<notin> set (PackageRecord.runtime_deps r))}" .
  moreover have "sorted (find_orphans db)" "distinct (find_orphans db)"
    by (simp_all add: find_orphans_def)
  ultimately show ?thesis by blast
qed


theorem find_orphans_exact_witness:
  "set (find_orphans [(''p'', example_record ''p'' [] []), (''q'', example_record ''q'' [] []), (''r'', example_record ''r'' [] [''q''])]) =
     {n. db_get [(''p'', example_record ''p'' [] []), (''q'', example_record ''q'' [] []), (''r'', example_record ''r'' [] [''q''])] n \<noteq> None
        \<and> (\<forall>q r. db_get [(''p'', example_record ''p'' [] []), (''q'', example_record ''q'' [] []), (''r'', example_record ''r'' [] [''q''])] q = Some r
              \<longrightarrow> n \<notin> set (PackageRecord.runtime_deps r))}
   \<and> find_orphans [(''p'', example_record ''p'' [] []), (''q'', example_record ''q'' [] []), (''r'', example_record ''r'' [] [''q''])] = [''p'', ''r'']"
proof -
  let ?db = "[(''p'', example_record ''p'' [] []), (''q'', example_record ''q'' [] []), (''r'', example_record ''r'' [] [''q''])]"
  have d: "distinct (map fst ?db)" by simp
  have e: "find_orphans ?db = [''p'', ''r'']" by code_simp
  from find_orphans_exact [OF d] e show ?thesis by blast
qed

lemma rev_add_fold:
  "fold (rev_add pkg) ds rv t =
     (case rv t of None \<Rightarrow> None | Some s \<Rightarrow> Some (if t \<in> set ds then insert pkg s else s))"
  by (induction ds arbitrary: rv) (auto simp: rev_add_def split: option.splits)

lemma rev_fold:
  "fold (\<lambda>(pkg, rec) rv. fold (rev_add pkg) (PackageRecord.runtime_deps rec) rv) xs rv t =
     (case rv t of None \<Rightarrow> None
      | Some s \<Rightarrow> Some (s \<union> {pkg. \<exists>rec. (pkg, rec) \<in> set xs \<and> t \<in> set (PackageRecord.runtime_deps rec)}))"
proof (induction xs arbitrary: rv)
  case Nil
  then show ?case by (simp split: option.splits)
next
  case (Cons x xs)
  obtain pkg rec where x: "x = (pkg, rec)" by (cases x)
  have "fold (\<lambda>(pkg, rec) rv. fold (rev_add pkg) (PackageRecord.runtime_deps rec) rv) (x # xs) rv t
      = fold (\<lambda>(pkg, rec) rv. fold (rev_add pkg) (PackageRecord.runtime_deps rec) rv) xs
          (fold (rev_add pkg) (PackageRecord.runtime_deps rec) rv) t"
    by (simp add: x)
  also have "\<dots> = (case fold (rev_add pkg) (PackageRecord.runtime_deps rec) rv t of None \<Rightarrow> None
      | Some s \<Rightarrow> Some (s \<union> {pkg. \<exists>rec. (pkg, rec) \<in> set xs \<and> t \<in> set (PackageRecord.runtime_deps rec)}))"
    by (rule Cons.IH)
  also have "\<dots> = (case rv t of None \<Rightarrow> None
      | Some s \<Rightarrow> Some (s \<union> {pkg. \<exists>rec. (pkg, rec) \<in> set (x # xs) \<and> t \<in> set (PackageRecord.runtime_deps rec)}))"
    unfolding rev_add_fold by (auto simp: x split: option.splits)
  finally show ?case .
qed

lemma rev_index_eq:
  "rev_index db t =
     (if t \<in> fst ` set db
      then Some {pkg. \<exists>rec. (pkg, rec) \<in> set db \<and> t \<in> set (PackageRecord.runtime_deps rec)}
      else None)"
proof -
  have init: "map_of (map (\<lambda>k. (k, {})) (map fst db)) t = (if t \<in> fst ` set db then Some {} else None)"
    by (induction db) auto
  show ?thesis
    unfolding rev_index_def db_all_def rev_fold init by simp
qed

lemma reverse_deps_single:
  assumes "distinct (map fst db)" and "db_get db p = Some rec"
  shows "reverse_deps db [p] p = Some (dependents db p)"
proof -
  have "p \<in> fst ` set db"
    using assms by (metis db_get_iff fst_conv image_eqI)
  then show ?thesis
    by (auto simp: reverse_deps_def rev_index_eq dependents_def db_get_iff [OF assms(1)])
qed

lemma finite_dependents: "finite (dependents db p)"
proof -
  have "dependents db p \<subseteq> fst ` set db"
    by (auto simp: dependents_def db_get_def dest!: map_of_SomeD intro: rev_image_eqI)
  then show ?thesis by (rule finite_subset) simp
qed

lemma db_get_remove: "db_get (db_remove db p) q = (if q = p then None else db_get db q)"
  by (simp add: db_get_def db_remove_def delete_conv')


text \<open>
  C3. For every installed package \<open>p\<close>: when another installed package's recorded
  \<^verbatim>\<open>runtime_deps\<close> contain \<open>p\<close> and \<open>force\<close> is false, \<^verbatim>\<open>uninstall(p)\<close> exits with the
  error that names the installed packages depending on \<open>p\<close>, and the registry (and the
  file system) is as it was; when \<open>force\<close> is true, \<open>p\<close>'s entry is deleted from the
  registry and the entry of every other package, the dependents among them, is unchanged.
\<close>

theorem uninstall_guard:
  assumes "distinct (map fst db)" and "db_get db p = Some rec"
  shows "(dependents db p - {p} \<noteq> {} \<longrightarrow>
            (\<exists>ds. uninstall rm db fs p False = (Inl (BlockedByDependents p ds), db, fs)
                 \<and> set ds = dependents db p))
       \<and> (\<exists>db' fs'. uninstall rm db fs p True = (Inr Removed, db', fs')
             \<and> db_get db' p = None \<and> (\<forall>q. q \<noteq> p \<longrightarrow> db_get db' q = db_get db q))"
proof -
  note rd = reverse_deps_single [OF assms]
  have a: "dependents db p \<noteq> {} \<Longrightarrow>
        uninstall rm db fs p False = (Inl (BlockedByDependents p (sorted_list_of_set (dependents db p))), db, fs)"
    by (simp add: uninstall_def assms(2) rd)
  have b: "uninstall rm db fs p True = (Inr Removed, db_remove db p, fold rm (removal_order (files rec)) fs)"
    by (simp add: uninstall_def assms(2) rd)
  show ?thesis
  proof (intro conjI impI)
    assume "dependents db p - {p} \<noteq> {}"
    then have "dependents db p \<noteq> {}" by blast
    from a [OF this] show "\<exists>ds. uninstall rm db fs p False = (Inl (BlockedByDependents p ds), db, fs)
                 \<and> set ds = dependents db p"
      by (simp add: finite_dependents)
  next
    show "\<exists>db' fs'. uninstall rm db fs p True = (Inr Removed, db', fs')
             \<and> db_get db' p = None \<and> (\<forall>q. q \<noteq> p \<longrightarrow> db_get db' q = db_get db q)"
      unfolding b by (simp add: db_get_remove)
  qed
qed


lemma ne_if_member: "x \<in> A \<Longrightarrow> A \<noteq> {}"
  by blast

theorem uninstall_guard_witness:
  "(\<exists>ds. uninstall record_path (db_set (db_set [] (example_record ''p'' [] [])) (example_record ''q'' [] [''p''])) [] ''p'' False
            = (Inl (BlockedByDependents ''p'' ds), db_set (db_set [] (example_record ''p'' [] [])) (example_record ''q'' [] [''p'']), [])
          \<and> set ds = dependents (db_set (db_set [] (example_record ''p'' [] [])) (example_record ''q'' [] [''p''])) ''p'')
   \<and> (\<exists>db' fs'. uninstall record_path (db_set (db_set [] (example_record ''p'' [] [])) (example_record ''q'' [] [''p''])) [] ''p'' True
            = (Inr Removed, db', fs')
          \<and> db_get db' ''p'' = None \<and> db_get db' ''q'' = Some (example_record ''q'' [] [''p'']))"
proof -
  let ?db = "db_set (db_set [] (example_record ''p'' [] [])) (example_record ''q'' [] [''p''])"
  have db: "?db = [(''p'', example_record ''p'' [] []), (''q'', example_record ''q'' [] [''p''])]"
    by (simp add: db_set_def example_record_def)
  have d: "distinct (map fst ?db)" by (simp add: db)
  have g: "db_get ?db ''p'' = Some (example_record ''p'' [] [])" by (simp add: db db_get_def)
  have q: "db_get ?db ''q'' = Some (example_record ''q'' [] [''p''])" by (simp add: db db_get_def)
  have "''q'' \<in> dependents ?db ''p''"
    unfolding dependents_def using q by (simp add: example_record_def)
  moreover have qp: "''q'' \<noteq> ''p''" by simp
  ultimately have "''q'' \<in> dependents ?db ''p'' - {''p''}" by (simp only: Diff_iff singleton_iff not_False_eq_True simp_thms)
  then have h: "dependents ?db ''p'' - {''p''} \<noteq> {}" by (rule ne_if_member)
  note t = uninstall_guard [OF d g, of record_path "[]"]
  from t h have a: "\<exists>ds. uninstall record_path ?db [] ''p'' False = (Inl (BlockedByDependents ''p'' ds), ?db, [])
          \<and> set ds = dependents ?db ''p''"
    by (rule conjunct1 [THEN mp])
  from t obtain db' fs' where
    u: "uninstall record_path ?db [] ''p'' True = (Inr Removed, db', fs')"
    and n: "db_get db' ''p'' = None"
    and o: "\<forall>q. q \<noteq> ''p'' \<longrightarrow> db_get db' q = db_get ?db q"
    by (elim conjE exE)
  from o [rule_format, OF qp] have "db_get db' ''q'' = db_get ?db ''q''" .
  with q have "db_get db' ''q'' = Some (example_record ''q'' [] [''p''])" by (simp only:)
  with u n have "\<exists>db' fs'. uninstall record_path ?db [] ''p'' True = (Inr Removed, db', fs')
          \<and> db_get db' ''p'' = None \<and> db_get db' ''q'' = Some (example_record ''q'' [] [''p''])"
    by (intro exI conjI)
  with a show ?thesis by (rule conjI)
qed

lemma depth_count: "depth x = Suc (length (filter (\<lambda>c. c = CHR ''/'') x))"
proof -
  have "split_on c x \<noteq> [] \<and> length (split_on c x) = Suc (length (filter (\<lambda>d. d = c) x))" for c
    by (induction x) (auto split: list.splits)
  then show ?thesis by (simp add: depth_def)
qed

lemma removal_order_sorted: "sorted_wrt (\<lambda>a b. depth b \<le> depth a) (removal_order fs)"
proof -
  have "sorted (map depth (sort_key depth (rev fs)))" by (rule sorted_sort_key)
  then have "sorted_wrt (\<lambda>a b. depth a \<le> depth b) (sort_key depth (rev fs))"
    by (simp add: sorted_map)
  then show ?thesis
    unfolding removal_order_def sorted_wrt_rev .
qed

lemma removal_order_mset: "mset (removal_order fs) = mset fs"
  by (simp add: removal_order_def)

text \<open>
  C8. When an installed package is uninstalled, its recorded paths are processed in the
  order of their number of path segments, descending: the loop visits a rearrangement of
  the recorded paths in which a path with more segments never comes after a path with
  fewer, so deeper paths are handled before shallower ones.
\<close>

theorem uninstall_deepest_first:
  assumes "db_get db n = Some rec"
    and "uninstall rm db fs n force = (Inr Removed, db', fs')"
  shows "fs' = fold rm (removal_order (files rec)) fs
       \<and> mset (removal_order (files rec)) = mset (files rec)
       \<and> (\<forall>i j. i < j \<and> j < length (removal_order (files rec)) \<longrightarrow>
             depth (removal_order (files rec) ! j) \<le> depth (removal_order (files rec) ! i))"
proof -
  have "fs' = fold rm (removal_order (files rec)) fs"
    using assms by (auto simp: uninstall_def split: option.splits if_splits)
  moreover have "\<forall>i j. i < j \<and> j < length (removal_order (files rec)) \<longrightarrow>
             depth (removal_order (files rec) ! j) \<le> depth (removal_order (files rec) ! i)"
    using removal_order_sorted [of "files rec"] by (simp add: sorted_wrt_iff_nth_less)
  ultimately show ?thesis by (simp add: removal_order_mset)
qed

theorem uninstall_deepest_first_witness:
  "uninstall record_path [(''z'', example_record ''z'' [''/usr/bin/z'', ''/usr/lib/z/a/b.so'', ''/usr/share/z''] [])] [] ''z'' False
     = (Inr Removed, [], [''/usr/lib/z/a/b.so'', ''/usr/bin/z'', ''/usr/share/z''])
   \<and> depth ''/usr/share/z'' \<le> depth ''/usr/lib/z/a/b.so''"
proof -
  let ?fs = "[''/usr/bin/z'', ''/usr/lib/z/a/b.so'', ''/usr/share/z'']"
  let ?db = "[(''z'', example_record ''z'' ?fs [])]"
  have g: "db_get ?db ''z'' = Some (example_record ''z'' ?fs [])" by (simp add: db_get_def)
  have o: "removal_order ?fs = [''/usr/lib/z/a/b.so'', ''/usr/bin/z'', ''/usr/share/z'']"
    by (simp add: removal_order_def depth_count)
  have fl: "files (example_record ''z'' ?fs []) = ?fs" by (simp add: example_record_def)
  have u: "uninstall record_path ?db [] ''z'' False = (Inr Removed, [], fold record_path (removal_order ?fs) [])"
    by (simp add: uninstall_def db_get_def reverse_deps_def rev_index_def db_all_def rev_add_def
          db_remove_def example_record_def)
  have f: "fold record_path [''/usr/lib/z/a/b.so'', ''/usr/bin/z'', ''/usr/share/z''] []
      = [''/usr/lib/z/a/b.so'', ''/usr/bin/z'', ''/usr/share/z'']"
    by (simp add: record_path_def)
  have r: "uninstall record_path ?db [] ''z'' False
     = (Inr Removed, [], [''/usr/lib/z/a/b.so'', ''/usr/bin/z'', ''/usr/share/z''])"
    by (simp only: u o f)
  from uninstall_deepest_first [OF g u]
  have "\<forall>i j. i < j \<and> j < length (removal_order ?fs) \<longrightarrow>
          depth (removal_order ?fs ! j) \<le> depth (removal_order ?fs ! i)"
    unfolding fl by (elim conjE)
  then have "(0::nat) < 2 \<and> 2 < length (removal_order ?fs) \<longrightarrow>
          depth (removal_order ?fs ! 2) \<le> depth (removal_order ?fs ! 0)"
    by (elim allE)
  moreover have "(0::nat) < 2 \<and> 2 < length (removal_order ?fs)" by (simp add: o)
  ultimately have "depth (removal_order ?fs ! 2) \<le> depth (removal_order ?fs ! 0)"
    by (rule mp)
  then have "depth ''/usr/share/z'' \<le> depth ''/usr/lib/z/a/b.so''"
    unfolding o by simp
  with r show ?thesis by (rule conjI)
qed

lemma expand_env_lookup: "expand_env penv nm ver vs = lookup_var penv nm ver vs"
  by (rule ext) (auto simp: expand_env_def lookup_var_def base_vars_def map_add_def split: option.splits)

lemma match_ref_render:
  assumes "k \<noteq> []" and "CHR ''}'' \<notin> set k"
  shows "match_ref (''${'' @ k @ ''}'' @ rest) = Some (k, rest)"
proof -
  have "takeWhile (\<lambda>c. c \<noteq> CHR ''}'') (k @ CHR ''}'' # rest) = k"
    using assms(2) by (induction k) auto
  moreover have "dropWhile (\<lambda>c. c \<noteq> CHR ''}'') (k @ CHR ''}'' # rest) = CHR ''}'' # rest"
    using assms(2) by (induction k) auto
  ultimately show ?thesis using assms(1) by simp
qed

lemma match_ref_SomeD:
  assumes "match_ref s = Some (k, rest)"
  shows "s = ''${'' @ k @ ''}'' @ rest \<and> k \<noteq> [] \<and> CHR ''}'' \<notin> set k"
proof -
  let ?P = "\<lambda>c. c \<noteq> CHR ''}''"
  from assms obtain a b t where s: "s = a # b # t"
    by (cases s rule: match_ref.cases) simp_all
  from assms s have ab: "a = CHR ''$''" "b = CHR ''{''"
    and k: "k = takeWhile ?P t" "k \<noteq> []"
    and r: "dropWhile ?P t \<noteq> []" "rest = tl (dropWhile ?P t)"
    by (auto simp: Let_def split: if_splits)
  from r(1) have "hd (dropWhile ?P t) = CHR ''}''"
    using hd_dropWhile [of ?P t] by simp
  with r have "dropWhile ?P t = CHR ''}'' # rest"
    by (cases "dropWhile ?P t") auto
  then have "t = k @ CHR ''}'' # rest"
    using takeWhile_dropWhile_id [of ?P t] k(1) by simp
  moreover have "CHR ''}'' \<notin> set k"
    unfolding k(1) by (auto dest: set_takeWhileD)
  ultimately show ?thesis using ab k(2) s by simp
qed

lemma expand_with_tokens: "expand_with env s = concat (map (subst env) (tokens s))"
proof (induction env s rule: expand_with.induct)
  case (1 env)
  show ?case by simp
next
  case (2 env c cs)
  show ?case
  proof (cases "match_ref (c # cs)")
    case None
    with 2 show ?thesis by simp
  next
    case (Some a)
    obtain k rest where a: "a = (k, rest)" by (cases a)
    from Some a 2(2) [OF Some a [symmetric]] show ?thesis
      by (simp add: repl_def group0_def split: option.splits)
  qed
qed

lemma render_tokens: "concat (map render (tokens s)) = s"
proof (induction s rule: tokens.induct)
  case 1
  show ?case by simp
next
  case (2 c cs)
  show ?case
  proof (cases "match_ref (c # cs)")
    case None
    with 2 show ?thesis by simp
  next
    case (Some a)
    obtain k rest where a: "a = (k, rest)" by (cases a)
    from Some a have "c # cs = ''${'' @ k @ ''}'' @ rest"
      using match_ref_SomeD by blast
    moreover from 2(2) [OF Some a [symmetric]] have "concat (map render (tokens rest)) = rest" .
    ultimately show ?thesis using Some a by simp
  qed
qed

lemma tokens_render: "well_formed ts \<Longrightarrow> tokens (concat (map render ts)) = ts"
proof (induction ts rule: well_formed.induct)
  case 1
  show ?case by simp
next
  case (2 k ts)
  then have k: "k \<noteq> []" "CHR ''}'' \<notin> set k" and IH: "tokens (concat (map render ts)) = ts"
    by simp_all
  have "tokens (''${'' @ k @ ''}'' @ concat (map render ts)) = Ref k # tokens (concat (map render ts))"
    using match_ref_render [OF k, of "concat (map render ts)"] by simp
  with IH show ?case by simp
next
  case (3 c ts)
  then have IH: "tokens (concat (map render ts)) = ts" by simp
  have "match_ref (c # concat (map render ts)) = None"
  proof (cases ts)
    case Nil
    then show ?thesis by simp
  next
    case (Cons t ts')
    show ?thesis
    proof (cases t)
      case (Chr d)
      with Cons 3(2) show ?thesis by auto
    next
      case (Ref k)
      with Cons show ?thesis by simp
    qed
  qed
  with IH show ?case by simp
qed


lemma match_var_render:
  assumes "CHR ''}'' \<notin> set k"
  shows "match_var (''${'' @ k @ ''}'' @ rest) = Some (k, ''${'' @ k @ ''}'', rest)"
proof -
  have "takeWhile (\<lambda>c. c \<noteq> CHR ''}'') (k @ CHR ''}'' # rest) = k"
    using assms by (induction k) auto
  moreover have "dropWhile (\<lambda>c. c \<noteq> CHR ''}'') (k @ CHR ''}'' # rest) = CHR ''}'' # rest"
    using assms by (induction k) auto
  moreover have "\<not> is_word CHR ''{''" by (simp add: is_word_def)
  ultimately show ?thesis by simp
qed

lemma closed_valuesD:
  assumes "closed_values env" and "env k = Some v"
  shows "v \<noteq> []" and "hd v \<noteq> CHR ''{''" and "last v \<noteq> CHR ''$''" and "\<not> open_ref v"
proof -
  from assms(1) have "env k = Some v \<longrightarrow>
      v \<noteq> [] \<and> hd v \<noteq> CHR ''{'' \<and> last v \<noteq> CHR ''$'' \<and> \<not> open_ref v"
    unfolding closed_values_def by (elim allE)
  from this assms(2)
  have a: "v \<noteq> [] \<and> hd v \<noteq> CHR ''{'' \<and> last v \<noteq> CHR ''$'' \<and> \<not> open_ref v"
    by (rule mp)
  from a show "v \<noteq> []" by (elim conjE)
  from a show "hd v \<noteq> CHR ''{''" by (elim conjE)
  from a show "last v \<noteq> CHR ''$''" by (elim conjE)
  from a show "\<not> open_ref v" by (elim conjE)
qed

lemma match_ref_not_dollar: "c \<noteq> CHR ''$'' \<Longrightarrow> match_ref (c # t) = None"
  by (cases t) simp_all

lemma expand_with_no_brace:
  "CHR ''}'' \<notin> set t \<Longrightarrow> expand_with env t = t"
proof (induction t)
  case Nil
  show ?case by simp
next
  case (Cons c cs)
  have "match_ref (c # cs) = None"
  proof (cases "match_ref (c # cs)")
    case None
    then show ?thesis .
  next
    case (Some a)
    obtain k rest where "a = (k, rest)" by (cases a)
    with Some have "c # cs = ''${'' @ k @ ''}'' @ rest" using match_ref_SomeD by blast
    then have "CHR ''}'' \<in> set (c # cs)" by (simp only: set_append) simp
    with Cons.prems show ?thesis by simp
  qed
  with Cons show ?case by simp
qed

lemma expand_with_head:
  assumes "closed_values env" and "cs \<noteq> []" and "hd cs \<noteq> CHR ''{''"
  shows "expand_with env cs \<noteq> [] \<and> hd (expand_with env cs) \<noteq> CHR ''{''"
proof -
  from assms(2) obtain d t where cs: "cs = d # t" by (cases cs) auto
  show ?thesis
  proof (cases "match_ref (d # t)")
    case None
    with cs assms(3) show ?thesis by simp
  next
    case (Some a)
    obtain k rest where a: "a = (k, rest)" by (cases a)
    show ?thesis
    proof (cases "env k")
      case None
      with Some a cs show ?thesis by (simp add: repl_def group0_def)
    next
      case (Some v)
      have "v \<noteq> []" "hd v \<noteq> CHR ''{''"
        by (rule closed_valuesD(1) [OF assms(1) Some], rule closed_valuesD(2) [OF assms(1) Some])
      with Some \<open>match_ref (d # t) = Some a\<close> a cs show ?thesis by (simp add: repl_def)
    qed
  qed
qed

lemma match_ref_after_expand:
  assumes "closed_values env" and "match_ref (c # cs) = None"
  shows "match_ref (c # expand_with env cs) = None"
proof (cases "c = CHR ''$''")
  case False
  then show ?thesis by (rule match_ref_not_dollar)
next
  case True
  show ?thesis
  proof (cases cs)
    case Nil
    then show ?thesis by simp
  next
    case (Cons d t)
    show ?thesis
    proof (cases "d = CHR ''{''")
      case False
      with Cons have "expand_with env cs \<noteq> [] \<and> hd (expand_with env cs) \<noteq> CHR ''{''"
        by (intro expand_with_head [OF assms(1)]) simp_all
      then obtain x xs where "expand_with env cs = x # xs" "x \<noteq> CHR ''{''"
        by (cases "expand_with env cs") auto
      then show ?thesis by simp
    next
      case d: True
      show ?thesis
      proof (cases "CHR ''}'' \<in> set t")
        case False
        with d Cons have "CHR ''}'' \<notin> set cs" by simp
        then have "expand_with env cs = cs" by (rule expand_with_no_brace)
        with assms(2) show ?thesis by simp
      next
        case b: True
        then have dw: "dropWhile (\<lambda>c. c \<noteq> CHR ''}'') t \<noteq> []" by (simp add: dropWhile_eq_Nil_conv)
        with assms(2) True d Cons have "takeWhile (\<lambda>c. c \<noteq> CHR ''}'') t = []"
          by (auto simp: Let_def split: if_splits)
        with b obtain t' where t: "t = CHR ''}'' # t'"
          by (cases t) (auto split: if_splits)
        have "expand_with env cs = CHR ''{'' # CHR ''}'' # expand_with env t'"
          by (simp add: Cons d t match_ref_not_dollar)
        with True show ?thesis by simp
      qed
    qed
  qed
qed

lemma tokens_keys: "Ref k \<in> set (tokens s) \<Longrightarrow> k \<noteq> [] \<and> CHR ''}'' \<notin> set k"
proof (induction s rule: tokens.induct)
  case 1
  then show ?case by simp
next
  case (2 c cs)
  show ?case
  proof (cases "match_ref (c # cs)")
    case None
    with 2 show ?thesis by simp
  next
    case (Some a)
    obtain k' rest where a: "a = (k', rest)" by (cases a)
    from Some a have v: "k' \<noteq> [] \<and> CHR ''}'' \<notin> set k'" using match_ref_SomeD by blast
    from "2.prems" Some a have "k = k' \<or> Ref k \<in> set (tokens rest)" by simp
    then show ?thesis
    proof
      assume "k = k'"
      with v show ?thesis by simp
    next
      assume "Ref k \<in> set (tokens rest)"
      then show ?thesis by (rule "2.IH"(2) [OF Some a [symmetric]])
    qed
  qed
qed

lemma match_var_not_dollar: "c \<noteq> CHR ''$'' \<Longrightarrow> match_var (c # t) = None"
  by simp

lemma expandvars_prefix:
  "CHR ''$'' \<notin> set v \<Longrightarrow> expandvars penv (v @ x) = v @ expandvars penv x"
proof (induction v)
  case Nil
  show ?case by simp
next
  case (Cons a v)
  then have "a \<noteq> CHR ''$''" by auto
  then have "match_var (a # v @ x) = None" by (rule match_var_not_dollar)
  with Cons show ?case by (simp del: match_var.simps)
qed

lemma expandvars_plain:
  assumes "\<forall>k. Ref k \<in> set ts \<longrightarrow> CHR ''}'' \<notin> set k"
    and "Chr CHR ''$'' \<notin> set ts"
    and "\<forall>k. L k = None \<longrightarrow> penv k = None"
    and "\<forall>k v. Ref k \<in> set ts \<and> L k = Some v \<longrightarrow> CHR ''$'' \<notin> set v"
  shows "expandvars penv (concat (map (subst L) ts)) = concat (map (subst L) ts)"
  using assms(1,2,4)
proof (induction ts)
  case Nil
  show ?case by simp
next
  case (Cons t ts)
  have IH: "expandvars penv (concat (map (subst L) ts)) = concat (map (subst L) ts)"
  proof (rule Cons.IH)
    show "\<forall>k. Ref k \<in> set ts \<longrightarrow> CHR ''}'' \<notin> set k" using Cons.prems(1) by simp
    show "Chr CHR ''$'' \<notin> set ts" using Cons.prems(2) by simp
    show "\<forall>k v. Ref k \<in> set ts \<and> L k = Some v \<longrightarrow> CHR ''$'' \<notin> set v"
    proof (intro allI impI)
      fix k v
      assume "Ref k \<in> set ts \<and> L k = Some v"
      then have "Ref k \<in> set (t # ts) \<and> L k = Some v" by simp
      then show "CHR ''$'' \<notin> set v" by (rule Cons.prems(3) [rule_format])
    qed
  qed
  show ?case
  proof (cases t)
    case (Chr c)
    with Cons.prems(2) have "c \<noteq> CHR ''$''" by auto
    then have "match_var (c # concat (map (subst L) ts)) = None" by (rule match_var_not_dollar)
    with IH Chr show ?thesis by (simp del: match_var.simps)
  next
    case (Ref k)
    show ?thesis
    proof (cases "L k")
      case None
      with assms(3) have pk: "penv k = None" by simp
      from Ref have "Ref k \<in> set (t # ts)" by simp
      then have "CHR ''}'' \<notin> set k" by (rule Cons.prems(1) [rule_format])
      from match_var_render [OF this, of "concat (map (subst L) ts)"] pk
      have "expandvars penv (''${'' @ k @ ''}'' @ concat (map (subst L) ts))
          = ''${'' @ k @ ''}'' @ expandvars penv (concat (map (subst L) ts))"
        by (simp del: match_var.simps)
      with IH Ref None show ?thesis by simp
    next
      case (Some v)
      with Ref have "Ref k \<in> set (t # ts) \<and> L k = Some v" by simp
      then have "CHR ''$'' \<notin> set v" by (rule Cons.prems(3) [rule_format])
      then have "expandvars penv (v @ concat (map (subst L) ts))
          = v @ expandvars penv (concat (map (subst L) ts))"
        by (rule expandvars_prefix)
      with IH Ref Some show ?thesis by simp
    qed
  qed
qed

lemma value_at_expand:
  "value_at p doc = Some (YStr s) \<Longrightarrow>
     value_at p (expand penv env doc) = Some (YStr (expandvars penv (expand_with env s)))"
proof (induction p arbitrary: doc)
  case Nil
  then show ?case by simp
next
  case (Cons st p)
  show ?case
  proof (cases st)
    case (Idx i)
    with Cons.prems obtain xs where d: "doc = YList xs" and i: "i < length xs"
      and v: "value_at p (xs ! i) = Some (YStr s)"
      by (cases doc) (simp_all split: if_splits)
    from Cons.IH [OF v] d i Idx show ?thesis by simp
  next
    case (Key k)
    with Cons.prems obtain kvs v where d: "doc = YDict kvs" and m: "map_of kvs k = Some v"
      and v: "value_at p v = Some (YStr s)"
      by (cases doc) (simp_all split: option.splits)
    from m have "map_of (map (\<lambda>(k, v). (k, expand penv env v)) kvs) k = Some (expand penv env v)"
      by (induction kvs) (auto split: if_splits)
    with Cons.IH [OF v] d Key show ?thesis by simp
  qed
qed

text \<open>
  C4. Take any string value \<open>s\<close> of a recipe document, wherever it stands in the lists
  and dictionaries of the document, and read it as references \<^verbatim>\<open>${K}\<close> and single
  characters (\<open>tokens\<close>; the reading loses nothing, and it is the only one that is well
  formed). Variable expansion replaces every reference whose key is defined in the
  expansion environment by the value of the key, where the \<^verbatim>\<open>vars\<close> block overrides the
  built-in \<^verbatim>\<open>name\<close> and \<^verbatim>\<open>version\<close>, which override the process environment, and leaves
  every reference to an undefined key, and all other text, as it is. \<^verbatim>\<open>Recipe.load\<close>
  puts at the same place of the document that string after the library's pass; where
  the literal text and the substituted values hold no dollar sign, the library's pass
  changes nothing and the document holds the substituted string itself. Expansion is a
  total function: no error is raised.
\<close>

theorem expansion_substitutes:
  assumes "value_at p doc = Some (YStr s)"
  shows "concat (map render (tokens s)) = s
       \<and> expand_with (expand_env penv nm ver vs) s
           = concat (map (subst (lookup_var penv nm ver vs)) (tokens s))
       \<and> value_at p (expand penv (expand_env penv nm ver vs) doc)
           = Some (YStr (expandvars penv (concat (map (subst (lookup_var penv nm ver vs)) (tokens s)))))
       \<and> (Chr CHR ''$'' \<notin> set (tokens s)
            \<and> (\<forall>k v. Ref k \<in> set (tokens s) \<and> lookup_var penv nm ver vs k = Some v
                  \<longrightarrow> CHR ''$'' \<notin> set v)
          \<longrightarrow> value_at p (expand penv (expand_env penv nm ver vs) doc)
                = Some (YStr (concat (map (subst (lookup_var penv nm ver vs)) (tokens s)))))
       \<and> (well_formed ts \<and> s = concat (map render ts) \<longrightarrow> tokens s = ts)"
proof -
  let ?L = "lookup_var penv nm ver vs"
  let ?t = "concat (map (subst ?L) (tokens s))"
  have a: "concat (map render (tokens s)) = s" by (rule render_tokens)
  have b: "expand_with ?L s = ?t" by (rule expand_with_tokens)
  from value_at_expand [OF assms, of penv ?L]
  have c: "value_at p (expand penv ?L doc) = Some (YStr (expandvars penv ?t))"
    by (simp only: b)
  have d: "value_at p (expand penv ?L doc) = Some (YStr ?t)"
    if h: "Chr CHR ''$'' \<notin> set (tokens s)
        \<and> (\<forall>k v. Ref k \<in> set (tokens s) \<and> ?L k = Some v \<longrightarrow> CHR ''$'' \<notin> set v)"
  proof -
    have k: "\<forall>k. Ref k \<in> set (tokens s) \<longrightarrow> CHR ''}'' \<notin> set k"
      using tokens_keys by blast
    have n: "\<forall>k. ?L k = None \<longrightarrow> penv k = None"
      by (simp add: lookup_var_def split: option.splits if_splits)
    from h have h1: "Chr CHR ''$'' \<notin> set (tokens s)" by (rule conjunct1)
    from h have h2: "\<forall>k v. Ref k \<in> set (tokens s) \<and> ?L k = Some v \<longrightarrow> CHR ''$'' \<notin> set v"
      by (rule conjunct2)
    have "expandvars penv ?t = ?t" by (rule expandvars_plain [OF k h1 n h2])
    with c show ?thesis by (simp only:)
  qed
  have e: "tokens s = ts" if "well_formed ts \<and> s = concat (map render ts)"
    using that tokens_render [of ts] by simp
  show ?thesis
    unfolding expand_env_lookup
  proof (intro conjI impI)
    show "concat (map render (tokens s)) = s" by (rule a)
    show "expand_with ?L s = ?t" by (rule b)
    show "value_at p (expand penv ?L doc) = Some (YStr (expandvars penv ?t))" by (rule c)
  next
    assume "Chr CHR ''$'' \<notin> set (tokens s)
        \<and> (\<forall>k v. Ref k \<in> set (tokens s) \<and> ?L k = Some v \<longrightarrow> CHR ''$'' \<notin> set v)"
    then show "value_at p (expand penv ?L doc) = Some (YStr ?t)" by (rule d)
  next
    assume "well_formed ts \<and> s = concat (map render ts)"
    then show "tokens s = ts" by (rule e)
  qed
qed

theorem expansion_substitutes_witness:
  "value_at [Key ''source'', Idx 0, Key ''url'']
     (expand [''HOME'' \<mapsto> ''/root''] (expand_env [''HOME'' \<mapsto> ''/root''] ''zlib'' ''1.3.1'' [''A'' \<mapsto> ''x''])
        (YDict [(''name'', YStr ''zlib''),
                (''source'', YList [YDict [(''type'', YStr ''curl''), (''url'', YStr ''${A}/${B}'')]])]))
     = Some (YStr ''x/${B}'')
   \<and> expand_with (expand_env [''HOME'' \<mapsto> ''/root''] ''zlib'' ''1.3.1'' [''A'' \<mapsto> ''x'']) ''${A}/${B}''
     = ''x/${B}''
   \<and> tokens ''${A}/${B}'' = [Ref ''A'', Chr CHR ''/'', Ref ''B'']"
proof -
  let ?P = "[''HOME'' \<mapsto> ''/root'']"
  let ?V = "[''A'' \<mapsto> ''x'']"
  let ?E = "expand_env ?P ''zlib'' ''1.3.1'' ?V"
  let ?L = "lookup_var ?P ''zlib'' ''1.3.1'' ?V"
  let ?p = "[Key ''source'', Idx 0, Key ''url'']"
  let ?doc = "YDict [(''name'', YStr ''zlib''),
                (''source'', YList [YDict [(''type'', YStr ''curl''), (''url'', YStr ''${A}/${B}'')]])]"
  let ?ts = "[Ref ''A'', Chr CHR ''/'', Ref ''B'']"
  have v: "value_at ?p ?doc = Some (YStr ''${A}/${B}'')" by simp
  note t = expansion_substitutes [OF v, of ?P "''zlib''" "''1.3.1''" ?V ?ts]
  have wf: "well_formed ?ts \<and> ''${A}/${B}'' = concat (map render ?ts)" by simp
  from t have "well_formed ?ts \<and> ''${A}/${B}'' = concat (map render ?ts) \<longrightarrow> tokens ''${A}/${B}'' = ?ts"
    by (elim conjE)
  from this wf have tk: "tokens ''${A}/${B}'' = ?ts" by (rule mp)
  have st: "concat (map (subst ?L) ?ts) = ''x/${B}''" by (simp add: lookup_var_def)
  from t have "expand_with ?E ''${A}/${B}'' = concat (map (subst ?L) (tokens ''${A}/${B}''))"
    by (elim conjE)
  then have c2: "expand_with ?E ''${A}/${B}'' = ''x/${B}''" by (simp only: tk st)
  have h1: "Chr CHR ''$'' \<notin> set ?ts" by simp
  have h2: "\<forall>k v. Ref k \<in> set ?ts \<and> ?L k = Some v \<longrightarrow> CHR ''$'' \<notin> set v"
  proof (intro allI impI)
    fix k v
    assume a: "Ref k \<in> set ?ts \<and> ?L k = Some v"
    then have "k = ''A'' \<or> k = ''B''" by simp
    then show "CHR ''$'' \<notin> set v"
    proof
      assume "k = ''A''"
      with a have "v = ''x''" by (simp add: lookup_var_def)
      then show ?thesis by simp
    next
      assume "k = ''B''"
      with a show ?thesis by (simp add: lookup_var_def)
    qed
  qed
  from h1 h2 have h: "Chr CHR ''$'' \<notin> set (tokens ''${A}/${B}'')
      \<and> (\<forall>k v. Ref k \<in> set (tokens ''${A}/${B}'') \<and> ?L k = Some v \<longrightarrow> CHR ''$'' \<notin> set v)"
    unfolding tk by (rule conjI)
  from t have "Chr CHR ''$'' \<notin> set (tokens ''${A}/${B}'')
      \<and> (\<forall>k v. Ref k \<in> set (tokens ''${A}/${B}'') \<and> ?L k = Some v \<longrightarrow> CHR ''$'' \<notin> set v)
      \<longrightarrow> value_at ?p (expand ?P ?E ?doc)
            = Some (YStr (concat (map (subst ?L) (tokens ''${A}/${B}''))))"
    by (elim conjE)
  from this h have "value_at ?p (expand ?P ?E ?doc)
      = Some (YStr (concat (map (subst ?L) (tokens ''${A}/${B}''))))"
    by (rule mp)
  then have c1: "value_at ?p (expand ?P ?E ?doc) = Some (YStr ''x/${B}'')"
    by (simp only: tk st)
  from c1 c2 tk show ?thesis by (intro conjI)
qed

lemma open_ref_Cons: "open_ref cs \<Longrightarrow> open_ref (c # cs)"
  by (cases cs) simp_all

lemma open_ref_append: "open_ref ys \<Longrightarrow> open_ref (xs @ ys)"
  by (induction xs) (simp_all add: open_ref_Cons del: open_ref.simps)

lemma expand_with_closed_prefix:
  assumes "\<forall>r \<in> set (ref_keys w). env r = None" and "\<not> open_ref w"
    and "w = [] \<or> last w \<noteq> CHR ''$''"
  shows "expand_with env (w @ x) = w @ expand_with env x"
  using assms
proof (induction w rule: tokens.induct)
  case 1
  show ?case by simp
next
  case (2 c cs)
  show ?case
  proof (cases "match_ref (c # cs)")
    case (Some a)
    obtain k rest where a: "a = (k, rest)" by (cases a)
    from Some a have w: "c # cs = ''${'' @ k @ ''}'' @ rest" and k: "k \<noteq> []" "CHR ''}'' \<notin> set k"
      using match_ref_SomeD by blast+
    from "2.prems"(1) Some a have ek: "env k = None"
      and r1: "\<forall>r \<in> set (ref_keys rest). env r = None"
      by (simp_all add: ref_keys_def)
    have r2: "\<not> open_ref rest"
    proof
      assume "open_ref rest"
      then have "open_ref ((''${'' @ k @ ''}'') @ rest)" by (rule open_ref_append)
      with w "2.prems"(2) show False by simp
    qed
    have r3: "rest = [] \<or> last rest \<noteq> CHR ''$''"
    proof (cases "rest = []")
      case True
      then show ?thesis by simp
    next
      case False
      then have "last (c # cs) = last rest" unfolding w by simp
      with "2.prems"(3) show ?thesis by simp
    qed
    from "2.IH"(2) [OF Some a [symmetric] r1 r2 r3]
    have IH: "expand_with env (rest @ x) = rest @ expand_with env x" .
    have "expand_with env (''${'' @ k @ ''}'' @ (rest @ x))
        = ''${'' @ k @ ''}'' @ expand_with env (rest @ x)"
      using match_ref_render [OF k, of "rest @ x"] ek by (simp add: repl_def group0_def)
    with IH have "expand_with env ((''${'' @ k @ ''}'' @ rest) @ x)
        = (''${'' @ k @ ''}'' @ rest) @ expand_with env x"
      by simp
    then show ?thesis by (simp only: w)
  next
    case None
    have m: "match_ref (c # cs @ x) = None"
    proof (cases "c = CHR ''$''")
      case False
      then show ?thesis by (rule match_ref_not_dollar)
    next
      case True
      show ?thesis
      proof (cases cs)
        case Nil
        with True "2.prems"(3) show ?thesis by simp
      next
        case (Cons d t)
        show ?thesis
        proof (cases "d = CHR ''{''")
          case False
          with Cons show ?thesis by simp
        next
          case d: True
          from "2.prems"(2) True d Cons have b: "CHR ''}'' \<in> set t" by simp
          then have "dropWhile (\<lambda>c. c \<noteq> CHR ''}'') t \<noteq> []" by (simp add: dropWhile_eq_Nil_conv)
          with None True d Cons have "takeWhile (\<lambda>c. c \<noteq> CHR ''}'') t = []"
            by (auto simp: Let_def split: if_splits)
          with b obtain t' where "t = CHR ''}'' # t'" by (cases t) (auto split: if_splits)
          with True d Cons show ?thesis by simp
        qed
      qed
    qed
    have r1: "\<forall>r \<in> set (ref_keys cs). env r = None"
      using "2.prems"(1) None by (simp add: ref_keys_def)
    have r2: "\<not> open_ref cs" using "2.prems"(2) open_ref_Cons by blast
    have r3: "cs = [] \<or> last cs \<noteq> CHR ''$''" using "2.prems"(3) by (cases cs) simp_all
    from "2.IH"(1) [OF None r1 r2 r3] have "expand_with env (cs @ x) = cs @ expand_with env x" .
    with m show ?thesis by simp
  qed
qed

text \<open>
  C5, as stated, fails. In each of the four environments below no value holds a
  reference, yet a second pass changes the result of the first, because a value and the
  text around it form a new reference. With \<open>B\<close> bound to \<open>y\<close> and \<open>A\<close> bound to a dollar
  sign, \<^verbatim>\<open>${A}{B}\<close> expands to \<^verbatim>\<open>${B}\<close> and then to \<open>y\<close>. The same happens with \<open>A\<close> bound
  to the empty string in \<^verbatim>\<open>$${A}{B}\<close>, with \<open>A\<close> bound to \<^verbatim>\<open>{B}\<close> in \<^verbatim>\<open>$${A}\<close>, and with \<open>A\<close>
  bound to a dollar sign and an opening brace in \<^verbatim>\<open>${A}B}\<close>.
\<close>

theorem expansion_idempotent_counterexample:
  "values_ref_free [''A'' \<mapsto> ''$'', ''B'' \<mapsto> ''y'']
   \<and> expand_with [''A'' \<mapsto> ''$'', ''B'' \<mapsto> ''y''] ''${A}{B}'' = ''${B}''
   \<and> expand_with [''A'' \<mapsto> ''$'', ''B'' \<mapsto> ''y''] (expand_with [''A'' \<mapsto> ''$'', ''B'' \<mapsto> ''y''] ''${A}{B}'') = ''y''
   \<and> expand_with [''A'' \<mapsto> ''$'', ''B'' \<mapsto> ''y''] (expand_with [''A'' \<mapsto> ''$'', ''B'' \<mapsto> ''y''] ''${A}{B}'')
       \<noteq> expand_with [''A'' \<mapsto> ''$'', ''B'' \<mapsto> ''y''] ''${A}{B}''
   \<and> values_ref_free [''A'' \<mapsto> [], ''B'' \<mapsto> ''y'']
   \<and> expand_with [''A'' \<mapsto> [], ''B'' \<mapsto> ''y''] ''$${A}{B}'' = ''${B}''
   \<and> expand_with [''A'' \<mapsto> [], ''B'' \<mapsto> ''y''] (expand_with [''A'' \<mapsto> [], ''B'' \<mapsto> ''y''] ''$${A}{B}'')
       \<noteq> expand_with [''A'' \<mapsto> [], ''B'' \<mapsto> ''y''] ''$${A}{B}''
   \<and> values_ref_free [''A'' \<mapsto> ''{B}'', ''B'' \<mapsto> ''y'']
   \<and> expand_with [''A'' \<mapsto> ''{B}'', ''B'' \<mapsto> ''y''] ''$${A}'' = ''${B}''
   \<and> expand_with [''A'' \<mapsto> ''{B}'', ''B'' \<mapsto> ''y''] (expand_with [''A'' \<mapsto> ''{B}'', ''B'' \<mapsto> ''y''] ''$${A}'')
       \<noteq> expand_with [''A'' \<mapsto> ''{B}'', ''B'' \<mapsto> ''y''] ''$${A}''
   \<and> values_ref_free [''A'' \<mapsto> ''${'', ''B'' \<mapsto> ''y'']
   \<and> expand_with [''A'' \<mapsto> ''${'', ''B'' \<mapsto> ''y''] ''${A}B}'' = ''${B}''
   \<and> expand_with [''A'' \<mapsto> ''${'', ''B'' \<mapsto> ''y''] (expand_with [''A'' \<mapsto> ''${'', ''B'' \<mapsto> ''y''] ''${A}B}'')
       \<noteq> expand_with [''A'' \<mapsto> ''${'', ''B'' \<mapsto> ''y''] ''${A}B}''"
proof -
  have r: "ref_keys ''y'' = []" by (simp add: ref_keys_def)
  have r1: "ref_keys ''$'' = []" by (simp add: ref_keys_def)
  have r2: "ref_keys [] = []" by (simp add: ref_keys_def)
  have r3: "ref_keys ''{B}'' = []" by (simp add: ref_keys_def)
  have r4: "ref_keys ''${'' = []" by (simp add: ref_keys_def)
  have v: "values_ref_free [''A'' \<mapsto> a, ''B'' \<mapsto> ''y'']" if "ref_keys a = []" for a
    unfolding values_ref_free_def
  proof (intro allI impI)
    fix k v
    assume "[''A'' \<mapsto> a, ''B'' \<mapsto> ''y''] k = Some v"
    then have "v = a \<or> v = ''y''" by (simp split: if_splits)
    then have "ref_keys v = []" using that r by (elim disjE) simp_all
    then show "\<forall>r \<in> set (ref_keys v). [''A'' \<mapsto> a, ''B'' \<mapsto> ''y''] r = None" by simp
  qed
  have b: "expand_with [''A'' \<mapsto> a, ''B'' \<mapsto> ''y''] ''${B}'' = ''y''" for a
    by (simp add: repl_def group0_def)
  have a1: "expand_with [''A'' \<mapsto> ''$'', ''B'' \<mapsto> ''y''] ''${A}{B}'' = ''${B}''"
    by (simp add: repl_def group0_def)
  have a2: "expand_with [''A'' \<mapsto> [], ''B'' \<mapsto> ''y''] ''$${A}{B}'' = ''${B}''"
    by (simp add: repl_def group0_def)
  have a3: "expand_with [''A'' \<mapsto> ''{B}'', ''B'' \<mapsto> ''y''] ''$${A}'' = ''${B}''"
    by (simp add: repl_def group0_def)
  have a4: "expand_with [''A'' \<mapsto> ''${'', ''B'' \<mapsto> ''y''] ''${A}B}'' = ''${B}''"
    by (simp add: repl_def group0_def)
  have c1: "expand_with [''A'' \<mapsto> ''$'', ''B'' \<mapsto> ''y''] (expand_with [''A'' \<mapsto> ''$'', ''B'' \<mapsto> ''y''] ''${A}{B}'') = ''y''"
    by (simp only: a1 b)
  have d1: "expand_with [''A'' \<mapsto> ''$'', ''B'' \<mapsto> ''y''] (expand_with [''A'' \<mapsto> ''$'', ''B'' \<mapsto> ''y''] ''${A}{B}'')
       \<noteq> expand_with [''A'' \<mapsto> ''$'', ''B'' \<mapsto> ''y''] ''${A}{B}''"
    by (simp only: a1 b) simp
  have d2: "expand_with [''A'' \<mapsto> [], ''B'' \<mapsto> ''y''] (expand_with [''A'' \<mapsto> [], ''B'' \<mapsto> ''y''] ''$${A}{B}'')
       \<noteq> expand_with [''A'' \<mapsto> [], ''B'' \<mapsto> ''y''] ''$${A}{B}''"
    by (simp only: a2 b) simp
  have d3: "expand_with [''A'' \<mapsto> ''{B}'', ''B'' \<mapsto> ''y''] (expand_with [''A'' \<mapsto> ''{B}'', ''B'' \<mapsto> ''y''] ''$${A}'')
       \<noteq> expand_with [''A'' \<mapsto> ''{B}'', ''B'' \<mapsto> ''y''] ''$${A}''"
    by (simp only: a3 b) simp
  have d4: "expand_with [''A'' \<mapsto> ''${'', ''B'' \<mapsto> ''y''] (expand_with [''A'' \<mapsto> ''${'', ''B'' \<mapsto> ''y''] ''${A}B}'')
       \<noteq> expand_with [''A'' \<mapsto> ''${'', ''B'' \<mapsto> ''y''] ''${A}B}''"
    by (simp only: a4 b) simp
  from v [OF r1] a1 c1 d1 v [OF r2] a2 d2 v [OF r3] a3 d3 v [OF r4] a4 d4
  show ?thesis by (intro conjI)
qed

text \<open>
  C5, amended. Variable expansion is idempotent for every string and every environment
  whose values hold no reference to a key of that environment and, in addition, are
  non-empty, do not begin with an opening brace, do not end with a dollar sign and hold
  no dollar sign and opening brace left without a closing brace after them: expanding
  the result of an expansion again, with the same environment, gives the same string.
  A value may hold dollar signs otherwise, and references to keys that are not defined.
\<close>

theorem expansion_idempotent:
  assumes "values_ref_free env" and "closed_values env"
  shows "expand_with env (expand_with env s) = expand_with env s"
  using assms
proof (induction env s rule: expand_with.induct)
  case (1 env)
  show ?case by simp
next
  case (2 env c cs)
  show ?case
  proof (cases "match_ref (c # cs)")
    case None
    from 2(1) [OF None 2(3) 2(4)]
    have IH: "expand_with env (expand_with env cs) = expand_with env cs" .
    from match_ref_after_expand [OF 2(4) None]
    have "expand_with env (c # expand_with env cs) = c # expand_with env (expand_with env cs)"
      by simp
    with IH None show ?thesis by simp
  next
    case (Some a)
    obtain k rest where a: "a = (k, rest)" by (cases a)
    from 2(2) [OF Some a [symmetric] 2(3) 2(4)]
    have IH: "expand_with env (expand_with env rest) = expand_with env rest" .
    from Some a have k: "k \<noteq> []" "CHR ''}'' \<notin> set k" using match_ref_SomeD by blast+
    show ?thesis
    proof (cases "env k")
      case None
      have "expand_with env (''${'' @ k @ ''}'' @ expand_with env rest)
          = ''${'' @ k @ ''}'' @ expand_with env (expand_with env rest)"
        using match_ref_render [OF k, of "expand_with env rest"] None
        by (simp add: repl_def group0_def)
      with IH None Some a show ?thesis by (simp add: repl_def group0_def)
    next
      case (Some v)
      from 2(3) have "env k = Some v \<longrightarrow> (\<forall>r \<in> set (ref_keys v). env r = None)"
        unfolding values_ref_free_def by (elim allE)
      from this Some have v1: "\<forall>r \<in> set (ref_keys v). env r = None" by (rule mp)
      have v2: "\<not> open_ref v" by (rule closed_valuesD(4) [OF 2(4) Some])
      have "last v \<noteq> CHR ''$''" by (rule closed_valuesD(3) [OF 2(4) Some])
      then have v3: "v = [] \<or> last v \<noteq> CHR ''$''" by (rule disjI2)
      have "expand_with env (v @ expand_with env rest) = v @ expand_with env (expand_with env rest)"
        by (rule expand_with_closed_prefix [OF v1 v2 v3])
      with IH Some \<open>match_ref (c # cs) = Some a\<close> a show ?thesis by (simp add: repl_def)
    qed
  qed
qed

theorem expansion_idempotent_witness:
  "expand_with [''P'' \<mapsto> ''$HOME/${Q}/x''] (expand_with [''P'' \<mapsto> ''$HOME/${Q}/x''] ''${P}/${B}'')
     = expand_with [''P'' \<mapsto> ''$HOME/${Q}/x''] ''${P}/${B}''
   \<and> expand_with [''P'' \<mapsto> ''$HOME/${Q}/x''] ''${P}/${B}'' = ''$HOME/${Q}/x/${B}''"
proof -
  let ?E = "[''P'' \<mapsto> ''$HOME/${Q}/x'']"
  have rk: "ref_keys ''$HOME/${Q}/x'' = [''Q'']" by (simp add: ref_keys_def)
  have f: "values_ref_free ?E"
    unfolding values_ref_free_def
  proof (intro allI impI)
    fix k v
    assume "?E k = Some v"
    then have "v = ''$HOME/${Q}/x''" by (simp split: if_splits)
    then show "\<forall>r \<in> set (ref_keys v). ?E r = None" by (simp add: rk)
  qed
  have p: "closed_values ?E"
    unfolding closed_values_def
  proof (intro allI impI)
    fix k v
    assume "?E k = Some v"
    then have "v = ''$HOME/${Q}/x''" by (simp split: if_splits)
    then show "v \<noteq> [] \<and> hd v \<noteq> CHR ''{'' \<and> last v \<noteq> CHR ''$'' \<and> \<not> open_ref v" by simp
  qed
  have e: "expand_with ?E ''${P}/${B}'' = ''$HOME/${Q}/x/${B}''" by (simp add: repl_def group0_def)
  from expansion_idempotent [OF f p, of "''${P}/${B}''"] e show ?thesis by (rule conjI)
qed

text \<open>
  C6. For every source descriptor of the \<^verbatim>\<open>curl\<close> type that carries a declared hash
  \<^verbatim>\<open>algo:expected\<close>, once the file is downloaded its digest is computed and compared
  before anything is extracted. When the digest differs from the declared one, the
  whole fetch stage stops with the hash error: the download is the last effect, the
  archive is not extracted and no later source is fetched. When the digests agree, the
  stage goes on to the extraction: a file whose name has an archive suffix is unpacked,
  and the remaining sources follow.
\<close>

theorem fetch_verifies_before_extract:
  assumes "is_curl src"
    and "src_hash src = Some (algo @ '':'' @ expected)"
    and "CHR '':'' \<notin> set algo"
    and "curl w (src_url src) = Some c"
    and "hashlib_new w algo = Some h"
    and "fn = or_else (src_filename src) (path_name w (src_url src))"
    and "dest = path_join srcdir fn"
    and "st1 = st\<lparr>contents := (contents st)(dest \<mapsto> c),
                    events := events st @ [Downloaded (src_url src) dest]\<rparr>"
  shows "(h c \<noteq> expected \<longrightarrow>
            fetch_sources w srcdir (src # rest) st = (Some (HashMismatch fn expected (h c)), st1))
       \<and> (h c = expected \<and> list_ex (endswith fn) archive_suffixes \<and> unpack w dest srcdir \<longrightarrow>
            fetch_sources w srcdir (src # rest) st
              = fetch_sources w srcdir rest (st1\<lparr>events := events st1 @ [Extracted dest srcdir]\<rparr>))
       \<and> (h c = expected \<and> \<not> list_ex (endswith fn) archive_suffixes \<longrightarrow>
            fetch_sources w srcdir (src # rest) st = fetch_sources w srcdir rest st1)"
proof -
  have t: "(case src_type src of None \<Rightarrow> ''curl'' | Some t \<Rightarrow> t) = ''curl''"
    using assms(1) by (auto simp: is_curl_def)
  have sp: "split_once (algo @ '':'' @ expected) = Some (algo, expected)"
  proof -
    have "takeWhile (\<lambda>c. c \<noteq> CHR '':'') (algo @ CHR '':'' # expected) = algo"
      using assms(3) by (induction algo) auto
    moreover have "dropWhile (\<lambda>c. c \<noteq> CHR '':'') (algo @ CHR '':'' # expected) = CHR '':'' # expected"
      using assms(3) by (induction algo) auto
    ultimately show ?thesis by (simp add: split_once_def)
  qed
  have d: "download_to w (src_url src) dest st = (None, st1)"
    by (simp add: download_to_def assms(4) assms(8))
  have c1: "contents st1 dest = Some c" by (simp add: assms(8))
  have v: "verify_hash w dest fn (algo @ '':'' @ expected) st1
      = (if h c \<noteq> expected then Some (HashMismatch fn expected (h c)) else None)"
    by (simp only: verify_hash_def sp assms(5) c1 option.case prod.case)
  have ne: "algo @ '':'' @ expected \<noteq> []" by simp
  have f: "fetch_source w srcdir src st =
      (if h c \<noteq> expected then (Some (HashMismatch fn expected (h c)), st1)
       else if list_ex (endswith fn) archive_suffixes then extract_archive w dest srcdir st1
       else (None, st1))"
    unfolding fetch_source_def t Let_def assms(6) [symmetric] assms(7) [symmetric] d assms(2)
    using v ne by (simp del: append.simps append_is_Nil_conv)
  show ?thesis
    by (simp add: f extract_archive_def)
qed


theorem fetch_verifies_before_extract_witness:
  "fetch_sources example_world ''/w/src'' [example_source ''bad''] empty_state
     = (Some (HashMismatch ''z.tar.xz'' ''bad'' ''abc''),
        \<lparr>contents = [''/w/src/z.tar.xz'' \<mapsto> ''tarball''],
         events = [Downloaded ''http://h/z.tar.xz'' ''/w/src/z.tar.xz'']\<rparr>)
   \<and> fetch_sources example_world ''/w/src'' [example_source ''abc''] empty_state
     = (None,
        \<lparr>contents = [''/w/src/z.tar.xz'' \<mapsto> ''tarball''],
         events = [Downloaded ''http://h/z.tar.xz'' ''/w/src/z.tar.xz'',
                   Extracted ''/w/src/z.tar.xz'' ''/w/src'']\<rparr>)"
proof -
  let ?w = example_world
  let ?st1 = "\<lparr>contents = [''/w/src/z.tar.xz'' \<mapsto> ''tarball''],
         events = [Downloaded ''http://h/z.tar.xz'' ''/w/src/z.tar.xz'']\<rparr>"
  have cu: "is_curl (example_source d)" for d
    by (simp add: is_curl_def example_source_def)
  have hs: "src_hash (example_source d) = Some (''sha256'' @ '':'' @ d)" for d
    by (simp add: example_source_def)
  have al: "CHR '':'' \<notin> set ''sha256''" by simp
  have cr: "curl ?w (src_url (example_source d)) = Some ''tarball''" for d
    by (simp add: example_world_def example_source_def)
  have hn: "hashlib_new ?w ''sha256'' = Some (\<lambda>c. ''abc'')"
    by (simp add: example_world_def)
  have fn: "''z.tar.xz'' = or_else (src_filename (example_source d)) (path_name ?w (src_url (example_source d)))" for d
    by (simp add: or_else_def example_world_def example_source_def)
  have de: "''/w/src/z.tar.xz'' = path_join ''/w/src'' ''z.tar.xz''"
    by (simp add: path_join_def)
  have s1: "?st1 = empty_state\<lparr>contents := (contents empty_state)(''/w/src/z.tar.xz'' \<mapsto> ''tarball''),
                    events := events empty_state @ [Downloaded (src_url (example_source d)) ''/w/src/z.tar.xz'']\<rparr>" for d
    by (simp add: empty_state_def example_source_def)
  note bad = fetch_verifies_before_extract [OF cu hs al cr hn fn de s1, of "''bad''" "[]"]
  note good = fetch_verifies_before_extract [OF cu hs al cr hn fn de s1, of "''abc''" "[]"]
  have ne: "''abc'' \<noteq> ''bad''" by simp
  from bad have "''abc'' \<noteq> ''bad'' \<longrightarrow>
      fetch_sources ?w ''/w/src'' [example_source ''bad''] empty_state
        = (Some (HashMismatch ''z.tar.xz'' ''bad'' ''abc''), ?st1)"
    by (rule conjunct1)
  from this ne have a: "fetch_sources ?w ''/w/src'' [example_source ''bad''] empty_state
        = (Some (HashMismatch ''z.tar.xz'' ''bad'' ''abc''), ?st1)"
    by (rule mp)
  have ar: "list_ex (endswith ''z.tar.xz'') archive_suffixes"
    by (simp add: archive_suffixes_def endswith_def)
  have un: "unpack ?w ''/w/src/z.tar.xz'' ''/w/src''" by (simp add: example_world_def)
  from good have "''abc'' = ''abc'' \<and> list_ex (endswith ''z.tar.xz'') archive_suffixes
        \<and> unpack ?w ''/w/src/z.tar.xz'' ''/w/src'' \<longrightarrow>
      fetch_sources ?w ''/w/src'' [example_source ''abc''] empty_state
        = fetch_sources ?w ''/w/src'' [] (?st1\<lparr>events := events ?st1 @ [Extracted ''/w/src/z.tar.xz'' ''/w/src'']\<rparr>)"
    by (rule conjunct2 [THEN conjunct1])
  moreover have "''abc'' = ''abc'' \<and> list_ex (endswith ''z.tar.xz'') archive_suffixes
        \<and> unpack ?w ''/w/src/z.tar.xz'' ''/w/src''"
    using ar un by simp
  ultimately have "fetch_sources ?w ''/w/src'' [example_source ''abc''] empty_state
        = fetch_sources ?w ''/w/src'' [] (?st1\<lparr>events := events ?st1 @ [Extracted ''/w/src/z.tar.xz'' ''/w/src'']\<rparr>)"
    by (rule mp)
  then have b: "fetch_sources ?w ''/w/src'' [example_source ''abc''] empty_state
     = (None, \<lparr>contents = [''/w/src/z.tar.xz'' \<mapsto> ''tarball''],
         events = [Downloaded ''http://h/z.tar.xz'' ''/w/src/z.tar.xz'',
                   Extracted ''/w/src/z.tar.xz'' ''/w/src'']\<rparr>)"
    by simp
  from a b show ?thesis by (rule conjI)
qed

lemma graph_fold:
  assumes "distinct (map fst rs)" and "\<forall>(k, r) \<in> set rs. Recipe.name r = k"
  shows "fold (\<lambda>(k, r) g. g(Recipe.name r \<mapsto> deps r)) rs g0 n
       = (case map_of rs n of None \<Rightarrow> g0 n | Some r \<Rightarrow> Some (deps r))"
  using assms
proof (induction rs arbitrary: g0)
  case Nil
  show ?case by simp
next
  case (Cons x rs)
  obtain k r where x: "x = (k, r)" by (cases x)
  from Cons.prems x have nm: "Recipe.name r = k" and k: "k \<notin> fst ` set rs"
    and d: "distinct (map fst rs)" and a: "\<forall>(k, r) \<in> set rs. Recipe.name r = k"
    by auto
  from k have none: "map_of rs k = None" by (simp add: map_of_eq_None_iff)
  show ?case
    using Cons.IH [OF d a, of "g0(k \<mapsto> deps r)"] none
    by (simp add: x nm split: option.splits)
qed

lemma graph_lookup:
  assumes "recipes_wf rs"
  shows "graph rs n = map_option deps (map_of rs n)"
  using assms graph_fold [of rs Map.empty n]
  by (simp add: recipes_wf_def graph_def split: option.splits)

lemma graph_fold_distinct:
  assumes "\<forall>n ds. g0 n = Some ds \<longrightarrow> distinct ds"
    and "fold (\<lambda>(k, r) g. g(Recipe.name r \<mapsto> deps r)) rs g0 n = Some ds"
  shows "distinct ds"
  using assms
proof (induction rs arbitrary: g0)
  case Nil
  then show ?case by simp
next
  case (Cons x rs)
  obtain k r where x: "x = (k, r)" by (cases x)
  have "\<forall>n ds. (g0(Recipe.name r \<mapsto> deps r)) n = Some ds \<longrightarrow> distinct ds"
    using Cons.prems(1) by (auto simp: deps_def)
  from Cons.IH [OF this] Cons.prems(2) show ?case by (simp add: x)
qed

lemma distinct_graph_get: "distinct (graph_get (graph rs) n)"
proof (cases "graph rs n")
  case None
  then show ?thesis by (simp add: graph_get_def)
next
  case (Some ds)
  then have "distinct ds"
    unfolding graph_def by (intro graph_fold_distinct [of Map.empty]) simp_all
  with Some show ?thesis by (simp add: graph_get_def)
qed

lemma dfs_subset: "set (dfs g keys todo nd) \<subseteq> set nd \<union> set todo \<union> set keys"
  by (induction g keys todo nd rule: dfs.induct) auto

lemma dfs_distinct: "distinct nd \<Longrightarrow> distinct (dfs g keys todo nd)"
  by (induction g keys todo nd rule: dfs.induct) auto

lemma dfs_closed:
  assumes "\<forall>n \<in> set nd. \<forall>d \<in> set (graph_get g n). d \<in> set keys \<longrightarrow> d \<in> set nd \<union> set todo"
  shows "\<forall>n \<in> set (dfs g keys todo nd). \<forall>d \<in> set (graph_get g n).
           d \<in> set keys \<longrightarrow> d \<in> set (dfs g keys todo nd)"
  using assms
proof (induction g keys todo nd rule: dfs.induct)
  case (1 g keys nd)
  then show ?case by simp
next
  case (2 g keys n todo nd)
  show ?case
  proof (cases "n \<in> set nd")
    case True
    have "\<forall>m \<in> set nd. \<forall>d \<in> set (graph_get g m). d \<in> set keys \<longrightarrow> d \<in> set nd \<union> set todo"
      using "2.prems" True by auto
    from "2.IH"(1) [OF True this] True show ?thesis by simp
  next
    case False
    have "\<forall>m \<in> set (nd @ [n]). \<forall>d \<in> set (graph_get g m). d \<in> set keys \<longrightarrow>
        d \<in> set (nd @ [n]) \<union> set (filter (\<lambda>d. d \<in> set keys) (graph_get g n) @ todo)"
      using "2.prems" by auto
    from "2.IH"(2) [OF False this] False show ?thesis by simp
  qed
qed

lemma relax_closed:
  assumes "distinct ms"
  shows "relax sg n ms (indeg, q)
       = (\<lambda>m. if m \<in> set ms \<and> n \<in> set (sg m) then indeg m - 1 else indeg m,
          q @ filter (\<lambda>m. n \<in> set (sg m) \<and> indeg m = 1) ms)"
  using assms
proof (induction ms arbitrary: indeg q)
  case Nil
  show ?case by simp
next
  case (Cons m ms)
  then have m: "m \<notin> set ms" and d: "distinct ms" by simp_all
  show ?case
  proof (cases "n \<in> set (sg m)")
    case False
    then show ?thesis using Cons.IH [OF d, of indeg q] by (auto simp: fun_eq_iff)
  next
    case True
    let ?i = "indeg(m := indeg m - 1)"
    let ?q = "if indeg m - 1 = 0 then q @ [m] else q"
    have f: "filter (\<lambda>x. n \<in> set (sg x) \<and> ?i x = 1) ms = filter (\<lambda>x. n \<in> set (sg x) \<and> indeg x = 1) ms"
      using m by (intro filter_cong) auto
    have "relax sg n (m # ms) (indeg, q) = relax sg n ms (?i, ?q)"
      using True by simp
    also have "\<dots> = (\<lambda>x. if x \<in> set ms \<and> n \<in> set (sg x) then ?i x - 1 else ?i x,
          ?q @ filter (\<lambda>x. n \<in> set (sg x) \<and> ?i x = 1) ms)"
      by (rule Cons.IH [OF d])
    also have "\<dots> = (\<lambda>x. if x \<in> set (m # ms) \<and> n \<in> set (sg x) then indeg x - 1 else indeg x,
          q @ filter (\<lambda>x. n \<in> set (sg x) \<and> indeg x = 1) (m # ms))"
      unfolding f using True m by (auto simp: fun_eq_iff)
    finally show ?thesis .
  qed
qed

lemma position_nth: "x \<in> set out \<Longrightarrow> position out x < length out \<and> out ! position out x = x"
  unfolding position_def by (induction out) auto

lemma position_take: "x \<in> set (take i out) \<Longrightarrow> position out x < i"
proof (induction out arbitrary: i)
  case Nil
  then show ?case by simp
next
  case (Cons y ys)
  then obtain j where i: "i = Suc j" by (cases i) auto
  show ?case
  proof (cases "y = x")
    case True
    then show ?thesis by (simp add: position_def i)
  next
    case False
    with Cons.prems i have "x \<in> set (take j ys)" by simp
    from Cons.IH [OF this] False show ?thesis by (simp add: position_def i)
  qed
qed

lemma ordered_snoc:
  assumes "ordered sg out" and "set (sg n) \<subseteq> set out"
  shows "ordered sg (out @ [n])"
  unfolding ordered_def
proof (intro allI impI)
  fix i
  assume "i < length (out @ [n])"
  then consider "i < length out" | "i = length out" by fastforce
  then show "set (sg ((out @ [n]) ! i)) \<subseteq> set (take i (out @ [n]))"
  proof cases
    case 1
    with assms(1) show ?thesis by (simp add: ordered_def nth_append)
  next
    case 2
    with assms(2) show ?thesis by simp
  qed
qed

lemma ordered_position:
  assumes "ordered sg out" and "b \<in> set out" and "a \<in> set (sg b)"
  shows "a \<in> set out \<and> position out a < position out b"
proof -
  from position_nth [OF assms(2)] have l: "position out b < length out"
    and n: "out ! position out b = b" by simp_all
  from assms(1) l have "set (sg (out ! position out b)) \<subseteq> set (take (position out b) out)"
    by (simp add: ordered_def)
  with n have "set (sg b) \<subseteq> set (take (position out b) out)" by simp
  with assms(3) have a: "a \<in> set (take (position out b) out)" by blast
  then have "a \<in> set out" by (rule in_set_takeD)
  with position_take [OF a] show ?thesis by simp
qed

lemma kahn_inv_step:
  assumes ns: "distinct ns"
    and inv: "kahn_inv sg ns (n # q) indeg out"
    and rel: "relax sg n ns (indeg, q) = (indeg', q')"
  shows "kahn_inv sg ns q' indeg' (out @ [n])"
proof -
  let ?new = "filter (\<lambda>m. n \<in> set (sg m) \<and> indeg m = 1) ns"
  from inv have d: "distinct (out @ n # q)" and sub: "set (out @ n # q) \<subseteq> set ns"
    and deg: "\<forall>m \<in> set ns. indeg m = int (card (set (sg m) - set out))"
    and mem: "\<forall>m \<in> set ns. (m \<in> set (out @ n # q)) = (set (sg m) \<subseteq> set out)"
    and ord: "ordered sg out"
    by (simp_all add: kahn_inv_def)
  from d sub have n_ns: "n \<in> set ns" and n_out: "n \<notin> set out" and n_q: "n \<notin> set q"
    by auto
  from mem n_ns have sn: "set (sg n) \<subseteq> set out" by auto
  from relax_closed [OF ns, of sg n indeg q] rel
  have i': "indeg' = (\<lambda>m. if m \<in> set ns \<and> n \<in> set (sg m) then indeg m - 1 else indeg m)"
    and q': "q' = q @ ?new"
    by simp_all
  have fresh: "m \<notin> set (out @ n # q)" if "m \<in> set ns" and "n \<in> set (sg m)" for m
  proof -
    from that(2) n_out have "\<not> set (sg m) \<subseteq> set out" by auto
    with mem that(1) show ?thesis by blast
  qed
  have c1: "distinct ((out @ [n]) @ q')"
  proof -
    have "distinct ?new" using ns by simp
    moreover have "set ?new \<inter> set (out @ n # q) = {}" using fresh by auto
    ultimately show ?thesis using d unfolding q' by auto
  qed
  have c2: "set ((out @ [n]) @ q') \<subseteq> set ns"
    using sub unfolding q' by auto
  have card_n: "int (card (set (sg m) - set (out @ [n]))) = int (card (set (sg m) - set out)) - 1"
    if "n \<in> set (sg m)" for m
  proof -
    have "set (sg m) - set (out @ [n]) = (set (sg m) - set out) - {n}" by auto
    moreover have "n \<in> set (sg m) - set out" using that n_out by simp
    ultimately have "card (set (sg m) - set (out @ [n])) = card (set (sg m) - set out) - 1"
      and "0 < card (set (sg m) - set out)"
      by (auto simp: card_gt_0_iff)
    then show ?thesis by simp
  qed
  have c3: "\<forall>m \<in> set ns. indeg' m = int (card (set (sg m) - set (out @ [n])))"
  proof
    fix m
    assume m: "m \<in> set ns"
    show "indeg' m = int (card (set (sg m) - set (out @ [n])))"
    proof (cases "n \<in> set (sg m)")
      case True
      with m deg card_n [OF True] show ?thesis by (simp add: i')
    next
      case False
      then have "set (sg m) - set (out @ [n]) = set (sg m) - set out" by auto
      with m deg False show ?thesis by (simp add: i')
    qed
  qed
  have c4: "\<forall>m \<in> set ns. (m \<in> set ((out @ [n]) @ q')) = (set (sg m) \<subseteq> set (out @ [n]))"
  proof
    fix m
    assume m: "m \<in> set ns"
    show "(m \<in> set ((out @ [n]) @ q')) = (set (sg m) \<subseteq> set (out @ [n]))"
    proof (cases "n \<in> set (sg m)")
      case True
      from fresh [OF m True] have "(m \<in> set ((out @ [n]) @ q')) = (m \<in> set ?new)"
        unfolding q' by auto
      also have "\<dots> = (indeg m = 1)" using m True by simp
      also have "\<dots> = (card (set (sg m) - set out) = 1)" using deg m by simp
      also have "\<dots> = (set (sg m) - set out \<subseteq> {n})"
      proof
        assume "card (set (sg m) - set out) = 1"
        then have "\<exists>x. set (sg m) - set out = {x}"
          by (simp add: card_1_singleton_iff)
        then obtain x where x: "set (sg m) - set out = {x}" ..
        from True n_out have "n \<in> set (sg m) - set out" by simp
        then have "n = x" unfolding x by simp
        then show "set (sg m) - set out \<subseteq> {n}" unfolding x by simp
      next
        assume "set (sg m) - set out \<subseteq> {n}"
        moreover from True n_out have "n \<in> set (sg m) - set out" by simp
        ultimately have "set (sg m) - set out = {n}" by blast
        then show "card (set (sg m) - set out) = 1" by simp
      qed
      also have "\<dots> = (set (sg m) \<subseteq> set (out @ [n]))" by auto
      finally show ?thesis .
    next
      case False
      then have "m \<notin> set ?new" by simp
      then have "(m \<in> set ((out @ [n]) @ q')) = (m \<in> set (out @ n # q))"
        unfolding q' by auto
      also have "\<dots> = (set (sg m) \<subseteq> set out)" using mem m by blast
      also have "\<dots> = (set (sg m) \<subseteq> set (out @ [n]))" using False by auto
      finally show ?thesis .
    qed
  qed
  from c1 c2 c3 c4 ordered_snoc [OF ord sn] show ?thesis
    unfolding kahn_inv_def by (intro conjI)
qed

lemma kahn_result:
  assumes "distinct ns" and "kahn_inv sg ns q indeg out"
  shows "distinct (kahn sg ns q indeg out) \<and> set (kahn sg ns q indeg out) \<subseteq> set ns
       \<and> ordered sg (kahn sg ns q indeg out)"
  using assms
proof (induction sg ns q indeg out rule: kahn.induct)
  case (1 sg ns indeg out)
  then show ?case by (simp add: kahn_inv_def)
next
  case (2 sg ns n q indeg out)
  obtain indeg' q' where r: "relax sg n ns (indeg, q) = (indeg', q')"
    by (cases "relax sg n ns (indeg, q)")
  from kahn_inv_step [OF "2.prems"(1) "2.prems"(2) r]
  have "kahn_inv sg ns q' indeg' (out @ [n])" .
  from "2.IH" [OF r [symmetric] "2.prems"(1) this] r show ?case by simp
qed

lemma topo_sort_result:
  assumes "iter_ok iter"
  shows "distinct (topo_sort iter reqs rs)
       \<and> set (topo_sort iter reqs rs) \<subseteq> set (needed reqs rs)
       \<and> ordered (subg rs (needed reqs rs)) (topo_sort iter reqs rs)"
proof -
  let ?nd = "needed reqs rs"
  let ?ns = "iter ?nd"
  let ?sg = "subg rs ?nd"
  let ?indeg = "\<lambda>n. int (length (?sg n))"
  let ?q = "filter (\<lambda>n. ?indeg n = 0) ?ns"
  have "distinct ?nd" unfolding needed_def by (rule dfs_distinct) simp
  with assms have ns: "distinct ?ns" and sns: "set ?ns = set ?nd"
    by (simp_all add: iter_ok_def)
  have dsg: "distinct (?sg m)" for m
    by (simp add: subg_def distinct_graph_get)
  have "kahn_inv ?sg ?ns ?q ?indeg []"
    unfolding kahn_inv_def
  proof (intro conjI)
    show "distinct ([] @ ?q)" using ns by simp
    show "set ([] @ ?q) \<subseteq> set ?ns" by auto
    show "\<forall>m \<in> set ?ns. ?indeg m = int (card (set (?sg m) - set []))"
      using dsg by (simp add: distinct_card)
    show "\<forall>m \<in> set ?ns. (m \<in> set ([] @ ?q)) = (set (?sg m) \<subseteq> set [])" by simp
    show "ordered ?sg []" by (simp add: ordered_def)
  qed
  from kahn_result [OF ns this] sns show ?thesis
    by (simp add: topo_sort_def Let_def)
qed

lemma needed_keys: "set (needed reqs rs) \<subseteq> fst ` set rs"
  using dfs_subset [of "graph rs" "map fst rs" "filter (\<lambda>n. n \<in> set (map fst rs)) reqs" "[]"]
  by (auto simp: needed_def)

lemma needed_closed:
  assumes "n \<in> set (needed reqs rs)" and "d \<in> set (graph_get (graph rs) n)" and "d \<in> fst ` set rs"
  shows "d \<in> set (needed reqs rs)"
  using dfs_closed [of "[]" "graph rs" "map fst rs" "filter (\<lambda>n. n \<in> set (map fst rs)) reqs"] assms
  by (auto simp: needed_def)

lemma depends_on_subg:
  assumes "recipes_wf rs" and "depends_on rs b a" and "b \<in> set (needed reqs rs)"
  shows "a \<in> set (subg rs (needed reqs rs) b)"
proof -
  from assms(2) obtain r where r: "map_of rs b = Some r"
    and a: "a \<in> set (Recipe.runtime_deps r) \<union> set (Recipe.build_deps r)"
    and k: "map_of rs a \<noteq> None"
    by (auto simp: depends_on_def split: option.splits)
  from k have ak: "a \<in> fst ` set rs" by (simp add: map_of_eq_None_iff)
  from r have "graph_get (graph rs) b = deps r"
    by (simp add: graph_get_def graph_lookup [OF assms(1)])
  with a have g: "a \<in> set (graph_get (graph rs) b)" by (simp add: deps_def)
  from needed_closed [OF assms(3) g ak] g show ?thesis by (simp add: subg_def)
qed

lemma depends_on_position:
  assumes "recipes_wf rs" and "iter_ok iter" and "depends_on rs b a"
    and "b \<in> set (topo_sort iter reqs rs)"
  shows "a \<in> set (topo_sort iter reqs rs)
       \<and> position (topo_sort iter reqs rs) a < position (topo_sort iter reqs rs) b"
proof -
  note res = topo_sort_result [OF assms(2), of reqs rs]
  from res assms(4) have "b \<in> set (needed reqs rs)" by blast
  from depends_on_subg [OF assms(1) assms(3) this]
  have "a \<in> set (subg rs (needed reqs rs) b)" .
  with res assms(4) show ?thesis by (intro ordered_position) simp_all
qed

lemma dep_chain_position:
  assumes "recipes_wf rs" and "iter_ok iter" and "dep_chain rs (u # w)"
    and "u \<in> set (topo_sort iter reqs rs)"
  shows "\<forall>y \<in> set w. y \<in> set (topo_sort iter reqs rs)
           \<and> position (topo_sort iter reqs rs) y < position (topo_sort iter reqs rs) u"
  using assms(3,4)
proof (induction w arbitrary: u)
  case Nil
  show ?case by simp
next
  case (Cons v w)
  from Cons.prems have e: "depends_on rs u v" and c: "dep_chain rs (v # w)" by simp_all
  from depends_on_position [OF assms(1,2) e Cons.prems(2)]
  have v: "v \<in> set (topo_sort iter reqs rs)"
    and p: "position (topo_sort iter reqs rs) v < position (topo_sort iter reqs rs) u"
    by simp_all
  from Cons.IH [OF c v] p v show ?case by auto
qed

lemma dep_chain_suffix: "dep_chain rs (xs @ ys) \<Longrightarrow> dep_chain rs ys"
proof (induction xs)
  case Nil
  then show ?case by simp
next
  case (Cons x xs)
  then show ?case by (cases "xs @ ys") auto
qed

lemma dfs_mono: "set nd \<union> set todo \<subseteq> set (dfs g keys todo nd)"
  by (induction g keys todo nd rule: dfs.induct) auto

lemma dfs_sound:
  assumes "set nd \<union> set todo \<subseteq> R"
    and "\<forall>n \<in> R. \<forall>d \<in> set (graph_get g n). d \<in> set keys \<longrightarrow> d \<in> R"
  shows "set (dfs g keys todo nd) \<subseteq> R"
  using assms
proof (induction g keys todo nd rule: dfs.induct)
  case (1 g keys nd)
  then show ?case by simp
next
  case (2 g keys n todo nd)
  show ?case
  proof (cases "n \<in> set nd")
    case True
    from "2.prems" have "set nd \<union> set todo \<subseteq> R" by auto
    from "2.IH"(1) [OF True this "2.prems"(2)] True show ?thesis by simp
  next
    case False
    from "2.prems" have "n \<in> R" by auto
    with "2.prems" have "set (nd @ [n]) \<union> set (filter (\<lambda>d. d \<in> set keys) (graph_get g n) @ todo) \<subseteq> R"
      by auto
    from "2.IH"(2) [OF False this "2.prems"(2)] False show ?thesis by simp
  qed
qed

lemma needed_reachable:
  "set (needed reqs rs) = {d. \<exists>n \<in> set reqs \<inter> fst ` set rs. (n, d) \<in> (edges rs)\<^sup>*}"
proof (intro equalityI subsetI)
  fix d
  assume d: "d \<in> set (needed reqs rs)"
  let ?R = "{d. \<exists>n \<in> set reqs \<inter> fst ` set rs. (n, d) \<in> (edges rs)\<^sup>*}"
  have "set (needed reqs rs) \<subseteq> ?R"
    unfolding needed_def
  proof (rule dfs_sound)
    show "set [] \<union> set (filter (\<lambda>n. n \<in> set (map fst rs)) reqs) \<subseteq> ?R" by auto
    show "\<forall>n \<in> ?R. \<forall>d \<in> set (graph_get (graph rs) n). d \<in> set (map fst rs) \<longrightarrow> d \<in> ?R"
    proof (intro ballI impI)
      fix n d
      assume "n \<in> ?R" and "d \<in> set (graph_get (graph rs) n)" and "d \<in> set (map fst rs)"
      then obtain r where r: "r \<in> set reqs \<inter> fst ` set rs" "(r, n) \<in> (edges rs)\<^sup>*"
        and e: "(n, d) \<in> edges rs"
        by (auto simp: edges_def)
      from r(2) e have "(r, d) \<in> (edges rs)\<^sup>*" by (rule rtrancl_into_rtrancl)
      with r(1) show "d \<in> ?R" by blast
    qed
  qed
  with d show "d \<in> ?R" by blast
next
  fix d
  assume "d \<in> {d. \<exists>n \<in> set reqs \<inter> fst ` set rs. (n, d) \<in> (edges rs)\<^sup>*}"
  then obtain n where n: "n \<in> set reqs" "n \<in> fst ` set rs" and p: "(n, d) \<in> (edges rs)\<^sup>*"
    by blast
  from n have "n \<in> set (needed reqs rs)"
    using dfs_mono [of "[]" "filter (\<lambda>n. n \<in> set (map fst rs)) reqs" "graph rs" "map fst rs"]
    by (auto simp: needed_def)
  with p show "d \<in> set (needed reqs rs)"
  proof (induction rule: rtrancl_induct)
    case base
    then show ?case .
  next
    case (step y z)
    then have "y \<in> set (needed reqs rs)" by simp
    moreover from step.hyps(2) have "z \<in> set (graph_get (graph rs) y)" "z \<in> fst ` set rs"
      by (simp_all add: edges_def)
    ultimately show ?case by (rule needed_closed)
  qed
qed

lemma example_recipes_wf: "recipes_wf example_recipes"
  by (simp add: recipes_wf_def example_recipes_def example_recipe_def)

lemma cyclic_recipes_wf: "recipes_wf cyclic_recipes"
  by (simp add: recipes_wf_def cyclic_recipes_def example_recipe_def)

lemma iter_ok_id: "iter_ok (\<lambda>xs. xs)"
  by (simp add: iter_ok_def)

lemmas topo_eval = topo_sort_def needed_def subg_def graph_def deps_def graph_get_def
  example_recipe_def example_recipes_def cyclic_recipes_def

text \<open>
  C1. For every list of targets and every recipe map, acyclic or not, the order that
  \<^verbatim>\<open>topo_sort\<close> returns lists every dependency of a listed package strictly before
  the package: when \<open>b\<close> is in the output, \<open>a\<close> is among the \<^verbatim>\<open>runtime_deps\<close> or the
  \<^verbatim>\<open>build_deps\<close> of \<open>b\<close>'s recipe and \<open>a\<close> has a recipe, then \<open>a\<close> is in the output at an
  earlier position than \<open>b\<close>. No name occurs twice in the output, so the position of a
  name is its only position. This holds for every order in which the set of needed
  names is iterated.
\<close>

theorem topo_sort_deps_first:
  assumes "recipes_wf rs" and "iter_ok iter"
    and "b \<in> set (topo_sort iter reqs rs)"
    and "map_of rs b = Some rb"
    and "a \<in> set (Recipe.runtime_deps rb) \<union> set (Recipe.build_deps rb)"
    and "map_of rs a \<noteq> None"
  shows "a \<in> set (topo_sort iter reqs rs)
       \<and> position (topo_sort iter reqs rs) a < position (topo_sort iter reqs rs) b
       \<and> distinct (topo_sort iter reqs rs)"
proof -
  from assms(4,5,6) have "depends_on rs b a" by (simp add: depends_on_def)
  from depends_on_position [OF assms(1,2) this assms(3)] topo_sort_result [OF assms(2), of reqs rs]
  show ?thesis by simp
qed

theorem topo_sort_deps_first_witness:
  "topo_sort (\<lambda>xs. xs) [''c''] example_recipes = [''a'', ''b'', ''c'']
   \<and> ''a'' \<in> set (topo_sort (\<lambda>xs. xs) [''c''] example_recipes)
   \<and> position (topo_sort (\<lambda>xs. xs) [''c''] example_recipes) ''a''
       < position (topo_sort (\<lambda>xs. xs) [''c''] example_recipes) ''b''
   \<and> position (topo_sort (\<lambda>xs. xs) [''c''] example_recipes) ''b''
       < position (topo_sort (\<lambda>xs. xs) [''c''] example_recipes) ''c''"
proof -
  let ?out = "topo_sort (\<lambda>xs. xs) [''c''] example_recipes"
  have e: "?out = [''a'', ''b'', ''c'']" by (simp add: topo_eval)
  have b: "''b'' \<in> set ?out" and c: "''c'' \<in> set ?out" by (simp_all add: e)
  have mb: "map_of example_recipes ''b'' = Some (example_recipe ''b'' [''a''] [])"
    and mc: "map_of example_recipes ''c'' = Some (example_recipe ''c'' [''a'', ''b''] [])"
    by (simp_all add: example_recipes_def)
  have ab: "''a'' \<in> set (Recipe.runtime_deps (example_recipe ''b'' [''a''] []))
      \<union> set (Recipe.build_deps (example_recipe ''b'' [''a''] []))"
    and bc: "''b'' \<in> set (Recipe.runtime_deps (example_recipe ''c'' [''a'', ''b''] []))
      \<union> set (Recipe.build_deps (example_recipe ''c'' [''a'', ''b''] []))"
    by (simp_all add: example_recipe_def)
  have ka: "map_of example_recipes ''a'' \<noteq> None" and kb: "map_of example_recipes ''b'' \<noteq> None"
    by (simp_all add: example_recipes_def)
  note t1 = topo_sort_deps_first [OF example_recipes_wf iter_ok_id b mb ab ka]
  note t2 = topo_sort_deps_first [OF example_recipes_wf iter_ok_id c mc bc kb]
  from t1 have p1: "''a'' \<in> set ?out" by (rule conjunct1)
  from t1 have p2: "position ?out ''a'' < position ?out ''b''" by (rule conjunct2 [THEN conjunct1])
  from t2 have p3: "position ?out ''b'' < position ?out ''c''" by (rule conjunct2 [THEN conjunct1])
  from e p1 p2 p3 show ?thesis by (intro conjI)
qed

text \<open>
  C2, as stated, fails: \<^verbatim>\<open>topo_sort\<close> has no check for a cycle and no error to raise.
  Where \<open>x\<close> depends on \<open>y\<close> and on \<open>a\<close>, and \<open>y\<close> on \<open>x\<close>, the target \<open>x\<close> reaches the
  cycle, and the function returns the partial order that holds \<open>a\<close> alone.
\<close>

theorem topo_sort_cycle_counterexample:
  "dep_chain cyclic_recipes [''x'', ''y'', ''x'']
   \<and> ''x'' \<in> set (needed [''x''] cyclic_recipes)
   \<and> topo_sort (\<lambda>xs. xs) [''x''] cyclic_recipes = [''a'']"
proof -
  have "dep_chain cyclic_recipes [''x'', ''y'', ''x'']"
    by (simp add: depends_on_def cyclic_recipes_def example_recipe_def)
  moreover have "''x'' \<in> set (needed [''x''] cyclic_recipes)"
    by (simp add: topo_eval)
  moreover have "topo_sort (\<lambda>xs. xs) [''x''] cyclic_recipes = [''a'']"
    by (simp add: topo_eval)
  ultimately show ?thesis by (intro conjI)
qed

text \<open>
  C2, amended. For every recipe map with a dependency cycle, resolving raises no error:
  \<^verbatim>\<open>topo_sort\<close> is a total function that returns a list, and no package that lies on a
  cycle is in that list. What it returns is a partial build order, possibly empty, of
  the needed packages.
\<close>

theorem topo_sort_omits_cycles:
  assumes "recipes_wf rs" and "iter_ok iter" and "p \<noteq> []" and "dep_chain rs (p @ [hd p])"
  shows "set p \<inter> set (topo_sort iter reqs rs) = {}"
proof (rule ccontr)
  let ?out = "topo_sort iter reqs rs"
  assume "set p \<inter> set ?out \<noteq> {}"
  then obtain x where xp: "x \<in> set p" and xo: "x \<in> set ?out" by blast
  from xp obtain p1 p2 where p: "p = p1 @ x # p2" by (auto dest: split_list)
  from assms(4) have "dep_chain rs (p1 @ (x # (p2 @ [hd p])))" by (simp add: p)
  then have "dep_chain rs (x # (p2 @ [hd p]))" by (rule dep_chain_suffix)
  from dep_chain_position [OF assms(1,2) this xo] have h: "hd p \<in> set ?out" by simp
  from assms(3) have "p @ [hd p] = hd p # (tl p @ [hd p])" by (cases p) simp_all
  with assms(4) have "dep_chain rs (hd p # (tl p @ [hd p]))" by simp
  from dep_chain_position [OF assms(1,2) this h]
  have "position ?out (hd p) < position ?out (hd p)" by simp
  then show False by simp
qed

theorem topo_sort_omits_cycles_witness:
  "set [''x'', ''y''] \<inter> set (topo_sort (\<lambda>xs. xs) [''x''] cyclic_recipes) = {}
   \<and> dep_chain cyclic_recipes ([''x'', ''y''] @ [hd [''x'', ''y'']])"
proof -
  have n: "[''x'', ''y''] \<noteq> []" by simp
  have c: "dep_chain cyclic_recipes ([''x'', ''y''] @ [hd [''x'', ''y'']])"
    by (simp add: depends_on_def cyclic_recipes_def example_recipe_def)
  from topo_sort_omits_cycles [OF cyclic_recipes_wf iter_ok_id n c, of "[''x'']"] c
  show ?thesis by (rule conjI)
qed

text \<open>
  C9. A target that has no recipe is dropped without an error: for every list of
  targets the output of \<^verbatim>\<open>topo_sort\<close> holds only names that are keys of the recipe
  map, and a target that is not a key changes nothing: with it and without it the
  output is the same.
\<close>

theorem topo_sort_only_recipes:
  assumes "iter_ok iter"
  shows "(\<forall>m \<in> set (topo_sort iter reqs rs). map_of rs m \<noteq> None)
       \<and> (map_of rs n = None \<longrightarrow> topo_sort iter (xs @ n # ys) rs = topo_sort iter (xs @ ys) rs)"
proof (intro conjI ballI impI)
  fix m
  assume "m \<in> set (topo_sort iter reqs rs)"
  with topo_sort_result [OF assms, of reqs rs] needed_keys [of reqs rs]
  have "m \<in> fst ` set rs" by blast
  then show "map_of rs m \<noteq> None" by (simp add: map_of_eq_None_iff)
next
  assume "map_of rs n = None"
  then have "n \<notin> set (map fst rs)" by (simp add: map_of_eq_None_iff)
  then have "needed (xs @ n # ys) rs = needed (xs @ ys) rs" by (simp add: needed_def)
  then show "topo_sort iter (xs @ n # ys) rs = topo_sort iter (xs @ ys) rs"
    by (simp add: topo_sort_def)
qed

theorem topo_sort_only_recipes_witness:
  "topo_sort (\<lambda>xs. xs) [''ghost'', ''b''] example_recipes = topo_sort (\<lambda>xs. xs) [''b''] example_recipes
   \<and> topo_sort (\<lambda>xs. xs) [''ghost'', ''b''] example_recipes = [''a'', ''b'']
   \<and> map_of example_recipes ''ghost'' = None"
proof -
  have g: "map_of example_recipes ''ghost'' = None" by (simp add: example_recipes_def)
  from topo_sort_only_recipes [OF iter_ok_id, of "[''b'']" example_recipes "''ghost''" "[]" "[''b'']"]
  have "map_of example_recipes ''ghost'' = None \<longrightarrow>
      topo_sort (\<lambda>xs. xs) ([] @ ''ghost'' # [''b'']) example_recipes
        = topo_sort (\<lambda>xs. xs) ([] @ [''b'']) example_recipes"
    by (rule conjunct2)
  from this g have "topo_sort (\<lambda>xs. xs) ([] @ ''ghost'' # [''b'']) example_recipes
        = topo_sort (\<lambda>xs. xs) ([] @ [''b'']) example_recipes"
    by (rule mp)
  then have a: "topo_sort (\<lambda>xs. xs) [''ghost'', ''b''] example_recipes
      = topo_sort (\<lambda>xs. xs) [''b''] example_recipes"
    by (simp only: append_Nil)
  have b: "topo_sort (\<lambda>xs. xs) [''b''] example_recipes = [''a'', ''b'']" by (simp add: topo_eval)
  from a b have c: "topo_sort (\<lambda>xs. xs) [''ghost'', ''b''] example_recipes = [''a'', ''b'']"
    by (rule trans)
  from a c g show ?thesis by (intro conjI)
qed

end
